theory Spec2Isabelle
  imports Main "HOL-Library.AList"
begin

section \<open>Values, errors and dictionaries\<close>

text \<open>
  The schema converter works on the result of \<^verbatim>\<open>json.load\<close>: nested Python dictionaries,
  lists, strings, integers, booleans and \<^verbatim>\<open>None\<close>. A dictionary keeps its insertion order, so
  it is an association list; a Python dictionary never holds a key twice, and \<^verbatim>\<open>d[k] = v\<close>
  replaces the value of a present key where it stands and appends an absent key
  (\<open>AList.update\<close>). Floating point numbers are left out of the value type.
\<close>

datatype json =
    JNull
  | JBool bool
  | JInt int
  | JStr string
  | JArr "json list"
  | JObj "(string \<times> json) list"

type_synonym dict = "(string \<times> json) list"

text \<open>The exceptions the modelled code can raise.\<close>

datatype error = AttributeError | KeyError | TypeError | RecursionError | ValidationError

definition dict_in :: "string \<Rightarrow> dict \<Rightarrow> bool" where
  \<comment> \<open>\<^verbatim>\<open>k in d\<close> for a dictionary\<close>
  "dict_in k d = (map_of d k \<noteq> None)"

definition dict_get_or :: "dict \<Rightarrow> string \<Rightarrow> json \<Rightarrow> json" where
  \<comment> \<open>\<^verbatim>\<open>d.get(k, default)\<close>\<close>
  "dict_get_or d k dflt = (case map_of d k of None \<Rightarrow> dflt | Some v \<Rightarrow> v)"

subsection \<open>Strings\<close>

text \<open>
  \<^verbatim>\<open>str.startswith\<close>, the substring test \<^verbatim>\<open>sub in s\<close>, \<^verbatim>\<open>s.replace(old, new)\<close> (all
  occurrences, left to right, without overlap; the source only passes a non-empty \<^verbatim>\<open>old\<close>)
  and \<^verbatim>\<open>s.split('.')\<close>.
\<close>

definition startswith :: "string \<Rightarrow> string \<Rightarrow> bool" where
  "startswith p s = (take (length p) s = p)"

fun str_contains :: "string \<Rightarrow> string \<Rightarrow> bool" where
  "str_contains sub [] = (sub = [])"
| "str_contains sub (c # cs) = (startswith sub (c # cs) \<or> str_contains sub cs)"

fun str_replace :: "string \<Rightarrow> string \<Rightarrow> string \<Rightarrow> string" where
  "str_replace old new [] = []"
| "str_replace old new (c # cs) =
     (if startswith old (c # cs) then new @ str_replace old new (drop (length old - 1) cs)
      else c # str_replace old new cs)"

fun split_dot :: "string \<Rightarrow> string list" where
  "split_dot [] = [[]]"
| "split_dot (c # cs) =
     (if c = CHR ''.'' then [] # split_dot cs
      else (case split_dot cs of [] \<Rightarrow> [[c]] | w # ws \<Rightarrow> (c # w) # ws))"

subsection \<open>Subscripting arbitrary values with a string key\<close>

text \<open>
  The unflattener subscripts whatever it finds in the structure it builds. With a string
  key, only a dictionary supports \<^verbatim>\<open>v[k]\<close> and \<^verbatim>\<open>v[k] = x\<close>; a list or a string raises
  TypeError (indices must be integers), every other value is not subscriptable. The test
  \<^verbatim>\<open>k in v\<close> is key membership on a dictionary, element membership on a list, the substring
  test on a string and a TypeError otherwise.
\<close>

fun py_getitem :: "json \<Rightarrow> string \<Rightarrow> error + json" where
  "py_getitem (JObj d) k = (case map_of d k of None \<Rightarrow> Inl KeyError | Some v \<Rightarrow> Inr v)"
| "py_getitem _ k = Inl TypeError"

fun py_setitem :: "json \<Rightarrow> string \<Rightarrow> json \<Rightarrow> error + json" where
  "py_setitem (JObj d) k v = Inr (JObj (AList.update k v d))"
| "py_setitem _ k v = Inl TypeError"

fun py_contains :: "string \<Rightarrow> json \<Rightarrow> error + bool" where
  "py_contains k (JObj d) = Inr (dict_in k d)"
| "py_contains k (JArr xs) = Inr (JStr k \<in> set xs)"
| "py_contains k (JStr s) = Inr (str_contains k s)"
| "py_contains k _ = Inl TypeError"

section \<open>SchemaFlattener\<close>

subsection \<open>Nested detection\<close>

text \<open>
  One round of the loop of \<^verbatim>\<open>_has_nested_properties\<close>: whether this property makes the
  function return True. A value that is not a dictionary is passed over.
\<close>

fun prop_is_nested :: "json \<Rightarrow> bool" where
  "prop_is_nested (JObj prop_def) =
     (let prop_type = dict_get_or prop_def ''type'' (JStr '''') in
      if dict_in ''$ref'' prop_def then True
      else if prop_type = JStr ''object'' \<and> dict_in ''properties'' prop_def then True
      else if prop_type = JStr ''array'' \<and> dict_in ''items'' prop_def then
        (case map_of prop_def ''items'' of
           Some (JObj items_def) \<Rightarrow>
             dict_get_or items_def ''type'' (JStr '''') = JStr ''object''
             \<and> dict_in ''properties'' items_def
         | _ \<Rightarrow> False)
      else False)"
| "prop_is_nested _ = False"

fun has_nested_loop :: "dict \<Rightarrow> bool" where
  "has_nested_loop [] = False"
| "has_nested_loop ((prop_name, prop_def) # rest) =
     (if prop_is_nested prop_def then True else has_nested_loop rest)"

text \<open>\<^verbatim>\<open>properties.items()\<close> raises AttributeError on anything that is not a dictionary.\<close>

fun has_nested_properties :: "json \<Rightarrow> error + bool" where
  "has_nested_properties (JObj properties) = Inr (has_nested_loop properties)"
| "has_nested_properties _ = Inl AttributeError"

definition is_nested_schema :: "dict \<Rightarrow> error + bool" where
  "is_nested_schema schema =
     (case map_of schema ''properties'' of
        None \<Rightarrow> Inr False
      | Some properties \<Rightarrow> has_nested_properties properties)"

subsection \<open>Flattening\<close>

text \<open>
  The walk threads two dictionaries that it mutates in place: the flattened properties and
  the path mapping.
\<close>

type_synonym flat_state = "dict \<times> (string \<times> string) list"

definition build_nested_path :: "string \<Rightarrow> string" where
  "build_nested_path flat_path = flat_path"

definition record_leaf :: "string \<Rightarrow> json \<Rightarrow> flat_state \<Rightarrow> flat_state" where
  \<comment> \<open>\<^verbatim>\<open>flattened[current_path] = prop_def; path_mapping[current_path] = ...\<close>\<close>
  "record_leaf current_path prop_def st =
     (AList.update current_path prop_def (fst st),
      AList.update current_path (build_nested_path current_path) (snd st))"

text \<open>
  \<^verbatim>\<open>def_name in self.definitions\<close> followed by \<^verbatim>\<open>self.definitions[def_name]\<close>, where
  \<^verbatim>\<open>self.definitions\<close> is whatever the document holds under \<^verbatim>\<open>definitions\<close>: \<open>Inr None\<close>
  when the name is not found.
\<close>

definition resolve_definition :: "json \<Rightarrow> string \<Rightarrow> error + json option" where
  "resolve_definition definitions def_name =
     (case py_contains def_name definitions of
        Inl e \<Rightarrow> Inl e
      | Inr False \<Rightarrow> Inr None
      | Inr True \<Rightarrow>
          (case py_getitem definitions def_name of Inl e \<Rightarrow> Inl e | Inr d \<Rightarrow> Inr (Some d)))"

text \<open>
  The \<^verbatim>\<open>if\<close>/\<^verbatim>\<open>elif\<close> chain of \<^verbatim>\<open>_flatten_properties\<close> for one property that is a
  dictionary. Each branch of the source either calls \<^verbatim>\<open>_flatten_properties\<close> again, on some
  properties and with a new prefix, or records the property as a leaf, or raises
  (\<^verbatim>\<open>ref_path.startswith\<close> on a \<^verbatim>\<open>$ref\<close> that is not a string).
\<close>

datatype action = Recurse json string | Terminal | Raise error

definition flatten_dispatch :: "json \<Rightarrow> string \<Rightarrow> dict \<Rightarrow> action" where
  "flatten_dispatch definitions current_path prop_def =
     (let prop_type = dict_get_or prop_def ''type'' (JStr '''') in
      if dict_in ''$ref'' prop_def then
        (case map_of prop_def ''$ref'' of
           Some (JStr ref_path) \<Rightarrow>
             if startswith ''#/definitions/'' ref_path then
               (let def_name =
                      str_replace ''%20'' '' '' (str_replace ''#/definitions/'' '''' ref_path)
                in case resolve_definition definitions def_name of
                     Inl e \<Rightarrow> Raise e
                   | Inr None \<Rightarrow> Terminal
                   | Inr (Some (JObj definition)) \<Rightarrow>
                       (case map_of definition ''properties'' of
                          Some properties \<Rightarrow> Recurse properties current_path
                        | None \<Rightarrow> Terminal)
                   | Inr (Some _) \<Rightarrow> Terminal)
             else Terminal
         | _ \<Rightarrow> Raise AttributeError)
      else if prop_type = JStr ''object'' \<and> dict_in ''properties'' prop_def then
        (case map_of prop_def ''properties'' of
           Some properties \<Rightarrow> Recurse properties current_path
         | None \<Rightarrow> Terminal)
      else if prop_type = JStr ''array'' \<and> dict_in ''items'' prop_def then
        (case map_of prop_def ''items'' of
           Some (JObj items_def) \<Rightarrow>
             (if map_of items_def ''type'' = Some (JStr ''object'') then
                (case map_of items_def ''properties'' of
                   Some properties \<Rightarrow> Recurse properties (current_path @ ''[*]'')
                 | None \<Rightarrow> Terminal)
              else Terminal)
         | _ \<Rightarrow> Terminal)
      else Terminal)"

text \<open>
  \<^verbatim>\<open>_flatten_properties\<close>. The recursion follows \<^verbatim>\<open>$ref\<close> into the definitions table, so
  it is not bounded by the document: a definition that refers to itself recurses until Python
  raises RecursionError. The first argument is the number of nested calls of
  \<^verbatim>\<open>_flatten_properties\<close> the interpreter still allows.
\<close>

fun flatten_properties :: "nat \<Rightarrow> json \<Rightarrow> json \<Rightarrow> string \<Rightarrow> flat_state \<Rightarrow> error + flat_state"
  and flatten_items :: "nat \<Rightarrow> json \<Rightarrow> dict \<Rightarrow> string \<Rightarrow> flat_state \<Rightarrow> error + flat_state"
where
  "flatten_properties 0 definitions properties prefix st = Inl RecursionError"
| "flatten_properties (Suc depth) definitions (JObj properties) prefix st =
     flatten_items depth definitions properties prefix st"
| "flatten_properties (Suc depth) definitions _ prefix st = Inl AttributeError"
| "flatten_items depth definitions [] prefix st = Inr st"
| "flatten_items depth definitions ((prop_name, prop_def) # rest) prefix st =
     (case prop_def of
        JObj pd \<Rightarrow>
          (let current_path = (if prefix \<noteq> [] then prefix @ ''.'' @ prop_name else prop_name) in
           case flatten_dispatch definitions current_path pd of
             Raise e \<Rightarrow> Inl e
           | Terminal \<Rightarrow>
               flatten_items depth definitions rest prefix (record_leaf current_path prop_def st)
           | Recurse properties new_prefix \<Rightarrow>
               (case flatten_properties depth definitions properties new_prefix st of
                  Inl e \<Rightarrow> Inl e
                | Inr st' \<Rightarrow> flatten_items depth definitions rest prefix st'))
      | _ \<Rightarrow> flatten_items depth definitions rest prefix st)"

definition flatten_schema :: "nat \<Rightarrow> dict \<Rightarrow> error + (dict \<times> (string \<times> string) list)" where
  "flatten_schema limit nested_schema =
     (case is_nested_schema nested_schema of
        Inl e \<Rightarrow> Inl e
      | Inr False \<Rightarrow> Inr (nested_schema, [])
      | Inr True \<Rightarrow>
          (let definitions = dict_get_or nested_schema ''definitions'' (JObj []) in
           case (case map_of nested_schema ''properties'' of
                   Some properties \<Rightarrow> flatten_properties limit definitions properties [] ([], [])
                 | None \<Rightarrow> Inr ([], [])) of
             Inl e \<Rightarrow> Inl e
           | Inr (flattened_properties, path_mapping) \<Rightarrow>
               Inr (AList.update ''properties'' (JObj flattened_properties) nested_schema,
                    path_mapping)))"

section \<open>SchemaUnflattener\<close>

text \<open>
  \<^verbatim>\<open>_parse_flat_path\<close> returns a list of dictionaries \<^verbatim>\<open>{"type": ..., "name": ...}\<close> whose
  type is \<^verbatim>\<open>"property"\<close> or \<^verbatim>\<open>"array"\<close>.
\<close>

datatype part = PropertyPart string | ArrayPart string

definition parse_segment :: "string \<Rightarrow> part" where
  "parse_segment segment =
     (if str_contains ''[*]'' segment then ArrayPart (str_replace ''[*]'' '''' segment)
      else PropertyPart segment)"

definition parse_flat_path :: "string \<Rightarrow> part list" where
  "parse_flat_path flat_path = map parse_segment (split_dot flat_path)"

definition object_node :: json where
  "object_node = JObj [(''type'', JStr ''object''), (''properties'', JObj [])]"

definition array_node :: json where
  "array_node =
     JObj [(''type'', JStr ''array''),
           (''items'', JObj [(''type'', JStr ''object''), (''properties'', JObj [])])]"

text \<open>
  The source moves a cursor \<^verbatim>\<open>current_level\<close> down the structure and mutates the dictionary
  it points at. Here the walk returns the updated value of the level it was given, and the
  caller stores it back where the cursor came from (\<open>put\<close>); after a successful
  \<^verbatim>\<open>v[k]\<close> with a string key, \<^verbatim>\<open>v\<close> is a dictionary, so storing back cannot fail. This is
  the source's result unless a path writes into a leaf object that the flat document holds
  under two keys: the source then changes the leaf under both keys, the walk below under one.
  The flattener records one leaf object under two keys when a definition is referenced twice,
  and a path writes into a leaf only when it continues below the flat key of that leaf.
\<close>

fun put :: "string \<Rightarrow> json \<Rightarrow> json \<Rightarrow> json" where
  "put k v (JObj d) = JObj (AList.update k v d)"
| "put k v other = other"

fun unflatten_parts :: "part list \<Rightarrow> json \<Rightarrow> json \<Rightarrow> error + json" where
  "unflatten_parts [] prop_def current_level = Inr current_level"
| "unflatten_parts (PropertyPart prop_name # rest) prop_def current_level =
     (if rest = [] then py_setitem current_level prop_name prop_def
      else
        (case py_contains prop_name current_level of
           Inl e \<Rightarrow> Inl e
         | Inr present \<Rightarrow>
           (case (if present then Inr current_level
                  else py_setitem current_level prop_name object_node) of
              Inl e \<Rightarrow> Inl e
            | Inr level \<Rightarrow>
              (case py_getitem level prop_name of
                 Inl e \<Rightarrow> Inl e
               | Inr node \<Rightarrow>
                 (case py_getitem node ''properties'' of
                    Inl e \<Rightarrow> Inl e
                  | Inr sub \<Rightarrow>
                    (case unflatten_parts rest prop_def sub of
                       Inl e \<Rightarrow> Inl e
                     | Inr sub' \<Rightarrow> Inr (put prop_name (put ''properties'' sub' node) level)))))))"
| "unflatten_parts (ArrayPart prop_name # rest) prop_def current_level =
     (case py_contains prop_name current_level of
        Inl e \<Rightarrow> Inl e
      | Inr present \<Rightarrow>
        (case (if present then Inr current_level
               else py_setitem current_level prop_name array_node) of
           Inl e \<Rightarrow> Inl e
         | Inr level \<Rightarrow>
           (case py_getitem level prop_name of
              Inl e \<Rightarrow> Inl e
            | Inr node \<Rightarrow>
              if rest = [] then
                (case py_setitem node ''items'' prop_def of
                   Inl e \<Rightarrow> Inl e
                 | Inr node' \<Rightarrow> Inr (put prop_name node' level))
              else
                (case py_getitem node ''items'' of
                   Inl e \<Rightarrow> Inl e
                 | Inr items \<Rightarrow>
                   (case py_getitem items ''properties'' of
                      Inl e \<Rightarrow> Inl e
                    | Inr sub \<Rightarrow>
                      (case unflatten_parts rest prop_def sub of
                         Inl e \<Rightarrow> Inl e
                       | Inr sub' \<Rightarrow>
                           Inr (put prop_name
                                  (put ''items'' (put ''properties'' sub' items) node)
                                  level)))))))"

definition unflatten_property :: "string \<Rightarrow> json \<Rightarrow> json \<Rightarrow> error + json" where
  "unflatten_property flat_path prop_def nested_properties =
     unflatten_parts (parse_flat_path flat_path) prop_def nested_properties"

fun unflatten_loop :: "dict \<Rightarrow> json \<Rightarrow> error + json" where
  "unflatten_loop [] nested_properties = Inr nested_properties"
| "unflatten_loop ((flat_path, prop_def) # rest) nested_properties =
     (case unflatten_property flat_path prop_def nested_properties of
        Inl e \<Rightarrow> Inl e
      | Inr nested_properties' \<Rightarrow> unflatten_loop rest nested_properties')"

definition unflatten_schema :: "dict \<Rightarrow> (string \<times> string) list \<Rightarrow> error + dict" where
  "unflatten_schema flat_schema path_mapping =
     (if path_mapping = [] then Inr flat_schema
      else
        (let nested_schema = filter (\<lambda>kv. fst kv \<noteq> ''properties'') flat_schema in
         case dict_get_or flat_schema ''properties'' (JObj []) of
           JObj properties \<Rightarrow>
             (case unflatten_loop properties (JObj []) of
                Inl e \<Rightarrow> Inl e
              | Inr nested_properties \<Rightarrow>
                  Inr (AList.update ''properties'' nested_properties nested_schema))
         | _ \<Rightarrow> Inl AttributeError))"

section \<open>Schema: the document-level model\<close>

text \<open>
  \<^verbatim>\<open>SchemaProperty\<close> and \<^verbatim>\<open>Schema\<close> are pydantic models. Constructing one validates the
  keyword arguments: a required field that is missing, or a \<^verbatim>\<open>str\<close> field given a value that
  is not a string, raises ValidationError; arguments that name no field are ignored; a field is
  filled through its alias (\<^verbatim>\<open>$schema\<close>, \<^verbatim>\<open>class\<close>). \<^verbatim>\<open>SchemaProperty(**prop_def)\<close> on a value
  that is not a dictionary raises TypeError. \<^verbatim>\<open>model_dump(by_alias=True)\<close> turns a model, and
  the models it holds, back into dictionaries, in the order the fields are declared.
\<close>

record SchemaProperty =
  type :: string
  inferenceType :: string
  instruction :: string

text \<open>
  \<^verbatim>\<open>Schema.properties\<close> is a \<^verbatim>\<open>Dict[str, Any]\<close> whose values are \<^verbatim>\<open>SchemaProperty\<close>
  instances or plain nested dictionaries.
\<close>

datatype prop_value = Model SchemaProperty | Raw json

record Schema =
  schema :: string
  description :: string
  class' :: string
  type :: string
  definitions :: dict
  properties :: "(string \<times> prop_value) list"

definition dump_property :: "SchemaProperty \<Rightarrow> json" where
  "dump_property p =
     JObj [(''type'', JStr (SchemaProperty.type p)),
           (''inferenceType'', JStr (inferenceType p)),
           (''instruction'', JStr (instruction p))]"

fun dump_value :: "prop_value \<Rightarrow> json" where
  "dump_value (Model p) = dump_property p"
| "dump_value (Raw j) = j"

definition model_dump :: "Schema \<Rightarrow> dict" where
  "model_dump s =
     [(''$schema'', JStr (schema s)),
      (''description'', JStr (description s)),
      (''class'', JStr (class' s)),
      (''type'', JStr (Schema.type s)),
      (''definitions'', JObj (definitions s)),
      (''properties'', JObj (map (\<lambda>kv. (fst kv, dump_value (snd kv))) (properties s)))]"

fun validate_str :: "json option \<Rightarrow> string option \<Rightarrow> error + string" where
  "validate_str (Some (JStr s)) dflt = Inr s"
| "validate_str (Some _) dflt = Inl ValidationError"
| "validate_str None (Some d) = Inr d"
| "validate_str None None = Inl ValidationError"

fun SchemaProperty_init :: "json \<Rightarrow> error + SchemaProperty" where
  "SchemaProperty_init (JObj prop_def) =
     (case validate_str (map_of prop_def ''type'') None of
        Inl e \<Rightarrow> Inl e
      | Inr t \<Rightarrow>
        (case validate_str (map_of prop_def ''inferenceType'') None of
           Inl e \<Rightarrow> Inl e
         | Inr i \<Rightarrow>
           (case validate_str (map_of prop_def ''instruction'') None of
              Inl e \<Rightarrow> Inl e
            | Inr s \<Rightarrow>
                Inr \<lparr>SchemaProperty.type = t, inferenceType = i, instruction = s\<rparr>)))"
| "SchemaProperty_init _ = Inl TypeError"

text \<open>
  \<^verbatim>\<open>Schema(**kwargs, properties=props)\<close>: the keyword arguments other than the properties are
  JSON values, the properties are given apart because they may hold model instances.
\<close>

definition Schema_init :: "dict \<Rightarrow> (string \<times> prop_value) list \<Rightarrow> error + Schema" where
  "Schema_init kwargs props =
     (case validate_str (map_of kwargs ''$schema'')
             (Some ''http://json-schema.org/draft-07/schema#'') of
        Inl e \<Rightarrow> Inl e
      | Inr sc \<Rightarrow>
        (case validate_str (map_of kwargs ''description'') None of
           Inl e \<Rightarrow> Inl e
         | Inr de \<Rightarrow>
           (case validate_str (map_of kwargs ''class'') None of
              Inl e \<Rightarrow> Inl e
            | Inr cl \<Rightarrow>
              (case validate_str (map_of kwargs ''type'') (Some ''object'') of
                 Inl e \<Rightarrow> Inl e
               | Inr ty \<Rightarrow>
                 (case dict_get_or kwargs ''definitions'' (JObj []) of
                    JObj defs \<Rightarrow>
                      Inr \<lparr>schema = sc, description = de, class' = cl, Schema.type = ty,
                           definitions = defs, properties = props\<rparr>
                  | _ \<Rightarrow> Inl ValidationError)))))"

text \<open>\<^verbatim>\<open>Schema(**d)\<close> for a dictionary of JSON values.\<close>

definition Schema_from_dict :: "dict \<Rightarrow> error + Schema" where
  "Schema_from_dict d =
     (case map_of d ''properties'' of
        Some (JObj ps) \<Rightarrow>
          Schema_init (filter (\<lambda>kv. fst kv \<noteq> ''properties'') d)
            (map (\<lambda>kv. (fst kv, Raw (snd kv))) ps)
      | _ \<Rightarrow> Inl ValidationError)"

definition is_nested :: "Schema \<Rightarrow> error + bool" where
  "is_nested self = is_nested_schema (model_dump self)"

text \<open>
  The loop of \<^verbatim>\<open>flatten_for_optimization\<close>: a property that \<^verbatim>\<open>SchemaProperty\<close> rejects is
  skipped, and the warning is logged (here: the field name and the exception, appended to
  the log).
\<close>

fun coerce_loop ::
  "dict \<Rightarrow> (string \<times> prop_value) list \<times> (string \<times> error) list
        \<Rightarrow> (string \<times> prop_value) list \<times> (string \<times> error) list" where
  "coerce_loop [] acc = acc"
| "coerce_loop ((field_name, prop_def) # rest) acc =
     (case SchemaProperty_init prop_def of
        Inr p \<Rightarrow> coerce_loop rest (AList.update field_name (Model p) (fst acc), snd acc)
      | Inl e \<Rightarrow> coerce_loop rest (fst acc, snd acc @ [(field_name, e)]))"

text \<open>
  \<^verbatim>\<open>flatten_for_optimization\<close> returns the log of warnings beside its result or exception.
\<close>

definition flatten_for_optimization ::
  "nat \<Rightarrow> Schema \<Rightarrow> (string \<times> error) list \<times> (error + Schema \<times> (string \<times> string) list)" where
  "flatten_for_optimization limit self =
     (let schema_dict = model_dump self in
      case flatten_schema limit schema_dict of
        Inl e \<Rightarrow> ([], Inl e)
      | Inr (flattened_dict, path_mapping) \<Rightarrow>
        (case dict_get_or flattened_dict ''properties'' (JObj []) of
           JObj fps \<Rightarrow>
             (let (flattened_properties, warnings) = coerce_loop fps ([], []) in
              case Schema_init (filter (\<lambda>kv. fst kv \<noteq> ''properties'') flattened_dict)
                     flattened_properties of
                Inl e \<Rightarrow> (warnings, Inl e)
              | Inr flattened_schema \<Rightarrow> (warnings, Inr (flattened_schema, path_mapping)))
         | _ \<Rightarrow> ([], Inl AttributeError)))"

definition unflatten_from_optimization ::
  "Schema \<Rightarrow> Schema \<Rightarrow> (string \<times> string) list \<Rightarrow> error + Schema" where
  "unflatten_from_optimization self flat_schema path_mapping =
     (if path_mapping = [] then Inr flat_schema
      else
        (case unflatten_schema (model_dump flat_schema) path_mapping of
           Inl e \<Rightarrow> Inl e
         | Inr nested_dict \<Rightarrow> Schema_from_dict nested_dict))"

section \<open>Nested detection agrees with its contract\<close>

text \<open>
  The contract of nested detection, in the words of the specification: a property counts when
  it is a node carrying \<^verbatim>\<open>$ref\<close>, or has type \<^verbatim>\<open>object\<close> and a \<^verbatim>\<open>properties\<close> entry, or has
  type \<^verbatim>\<open>array\<close> and an \<^verbatim>\<open>items\<close> entry that is a node of type \<^verbatim>\<open>object\<close> with a
  \<^verbatim>\<open>properties\<close> entry.
\<close>

definition spec_nested_property :: "json \<Rightarrow> bool" where
  "spec_nested_property p =
     (case p of
        JObj pd \<Rightarrow>
          dict_in ''$ref'' pd
          \<or> (map_of pd ''type'' = Some (JStr ''object'') \<and> dict_in ''properties'' pd)
          \<or> (map_of pd ''type'' = Some (JStr ''array'')
              \<and> (case map_of pd ''items'' of
                    Some (JObj it) \<Rightarrow>
                      map_of it ''type'' = Some (JStr ''object'') \<and> dict_in ''properties'' it
                  | _ \<Rightarrow> False))
      | _ \<Rightarrow> False)"

text \<open>
  A property without \<^verbatim>\<open>$ref\<close> that is an object lacking \<^verbatim>\<open>properties\<close>, or an array whose
  items are not an object with \<^verbatim>\<open>properties\<close> (a bare array of scalars).
\<close>

definition bare_property :: "json \<Rightarrow> bool" where
  "bare_property p =
     (case p of
        JObj pd \<Rightarrow>
          \<not> dict_in ''$ref'' pd
          \<and> ((map_of pd ''type'' = Some (JStr ''object'') \<and> \<not> dict_in ''properties'' pd)
             \<or> (map_of pd ''type'' = Some (JStr ''array'')
                 \<and> (case map_of pd ''items'' of
                       Some (JObj it) \<Rightarrow>
                         map_of it ''type'' \<noteq> Some (JStr ''object'') \<or> \<not> dict_in ''properties'' it
                     | _ \<Rightarrow> True)))
      | _ \<Rightarrow> False)"

section \<open>Example documents\<close>

text \<open>The documents of the specification's scenarios and of the repository's tests.\<close>

definition name_leaf :: json where
  "name_leaf =
     JObj [(''type'', JStr ''string''), (''inferenceType'', JStr ''explicit''),
           (''instruction'', JStr ''Extract name'')]"

definition customer_doc :: dict where
  "customer_doc =
     [(''description'', JStr ''Test schema''),
      (''properties'',
         JObj [(''customer'',
                  JObj [(''type'', JStr ''object''),
                        (''properties'', JObj [(''name'', name_leaf)])])])]"

definition malformed_doc :: dict where
  "malformed_doc =
     [(''description'', JStr ''Malformed schema for testing''),
      (''properties'',
         JObj [(''customer'', JObj [(''type'', JStr ''object'')]),
               (''items'',
                  JObj [(''type'', JStr ''array''),
                        (''items'', JObj [(''type'', JStr ''object'')])])])]"

definition order_schema :: Schema where
  "order_schema =
     \<lparr>schema = ''http://json-schema.org/draft-07/schema#'', description = ''Order'',
      class' = ''order'', Schema.type = ''object'', definitions = [],
      properties =
        [(''customer'',
            Raw (JObj [(''type'', JStr ''object''),
                       (''properties'',
                          JObj [(''name'', name_leaf),
                                (''age'', JObj [(''type'', JStr ''number'')])])])),
         (''total'', Model \<lparr>SchemaProperty.type = ''number'', inferenceType = ''explicit'',
                             instruction = ''Extract total''\<rparr>)]\<rparr>"

definition order_flat_properties :: dict where
  "order_flat_properties =
     [(''customer.name'', name_leaf),
      (''customer.age'', JObj [(''type'', JStr ''number'')]),
      (''total'', JObj [(''type'', JStr ''number''), (''inferenceType'', JStr ''explicit''),
                       (''instruction'', JStr ''Extract total'')])]"

definition order_index :: "(string \<times> string) list" where
  "order_index =
     [(''customer.name'', ''customer.name''), (''customer.age'', ''customer.age''),
      (''total'', ''total'')]"

definition order_kept :: "(string \<times> prop_value) list" where
  "order_kept =
     [(''customer.name'',
         Model \<lparr>SchemaProperty.type = ''string'', inferenceType = ''explicit'',
                instruction = ''Extract name''\<rparr>),
      (''total'',
         Model \<lparr>SchemaProperty.type = ''number'', inferenceType = ''explicit'',
                instruction = ''Extract total''\<rparr>)]"

section \<open>What the document-level flattening keeps and skips\<close>

text \<open>
  The flat fields that \<^verbatim>\<open>SchemaProperty\<close> accepts, coerced, and the fields it rejects, with
  the exception, both in the order of the flat document.
\<close>

fun keep_well_formed :: "dict \<Rightarrow> (string \<times> prop_value) list" where
  "keep_well_formed [] = []"
| "keep_well_formed ((field_name, prop_def) # rest) =
     (case SchemaProperty_init prop_def of
        Inr p \<Rightarrow> (field_name, Model p) # keep_well_formed rest
      | Inl e \<Rightarrow> keep_well_formed rest)"

fun skipped_fields :: "dict \<Rightarrow> (string \<times> error) list" where
  "skipped_fields [] = []"
| "skipped_fields ((field_name, prop_def) # rest) =
     (case SchemaProperty_init prop_def of
        Inr p \<Rightarrow> skipped_fields rest
      | Inl e \<Rightarrow> (field_name, e) # skipped_fields rest)"

section \<open>The two shapes of the path grammar\<close>

text \<open>
  An array of objects whose item object holds one property, and an object that holds one
  property.
\<close>

definition array_of_objects :: "string \<Rightarrow> json \<Rightarrow> json" where
  "array_of_objects b leaf =
     JObj [(''type'', JStr ''array''),
           (''items'', JObj [(''type'', JStr ''object''), (''properties'', JObj [(b, leaf)])])]"

definition object_of :: "string \<Rightarrow> json \<Rightarrow> json" where
  "object_of b leaf = JObj [(''type'', JStr ''object''), (''properties'', JObj [(b, leaf)])]"

section \<open>Flat paths that do not collide\<close>

text \<open>
  Two parsed flat paths are compatible when, as long as they run through the same names, they
  use the same kind of segment for a name and neither ends where the other goes on: the first
  segments have different names, or they have the same kind and either both paths end there or
  both continue with compatible remainders.
\<close>

fun part_name :: "part \<Rightarrow> string" where
  "part_name (PropertyPart n) = n"
| "part_name (ArrayPart n) = n"

fun same_kind :: "part \<Rightarrow> part \<Rightarrow> bool" where
  "same_kind (PropertyPart a) (PropertyPart b) = True"
| "same_kind (ArrayPart a) (ArrayPart b) = True"
| "same_kind x y = False"

fun compatible :: "part list \<Rightarrow> part list \<Rightarrow> bool" where
  "compatible [] q = True"
| "compatible (x # p) [] = True"
| "compatible (x # p) (y # q) =
     (part_name x \<noteq> part_name y
      \<or> (same_kind x y \<and> ((p = [] \<and> q = []) \<or> (p \<noteq> [] \<and> q \<noteq> [] \<and> compatible p q))))"

fun pairwise_compatible :: "part list list \<Rightarrow> bool" where
  "pairwise_compatible [] = True"
| "pairwise_compatible (p # ps) = (list_all (compatible p) ps \<and> pairwise_compatible ps)"

text \<open>
  What one step of the walk stores under the name of the first segment, given what the level
  holds there: the body of \<open>unflatten_parts\<close> for a dictionary level, with the membership test
  read off the lookup.
\<close>

definition node_after :: "part \<Rightarrow> part list \<Rightarrow> json \<Rightarrow> json option \<Rightarrow> error + json" where
  "node_after x rest prop_def existing =
     (case x of
        PropertyPart n \<Rightarrow>
          if rest = [] then Inr prop_def
          else
            (let node = (case existing of None \<Rightarrow> object_node | Some v \<Rightarrow> v) in
             case py_getitem node ''properties'' of
               Inl e \<Rightarrow> Inl e
             | Inr sub \<Rightarrow>
                 (case unflatten_parts rest prop_def sub of
                    Inl e \<Rightarrow> Inl e
                  | Inr sub' \<Rightarrow> Inr (put ''properties'' sub' node)))
      | ArrayPart n \<Rightarrow>
          (let node = (case existing of None \<Rightarrow> array_node | Some v \<Rightarrow> v) in
           if rest = [] then py_setitem node ''items'' prop_def
           else
             (case py_getitem node ''items'' of
                Inl e \<Rightarrow> Inl e
              | Inr items \<Rightarrow>
                  (case py_getitem items ''properties'' of
                     Inl e \<Rightarrow> Inl e
                   | Inr sub \<Rightarrow>
                       (case unflatten_parts rest prop_def sub of
                          Inl e \<Rightarrow> Inl e
                        | Inr sub' \<Rightarrow>
                            Inr (put ''items'' (put ''properties'' sub' items) node))))))"

text \<open>Flat documents with colliding paths, and nested documents that do not round-trip.\<close>

definition prefix_doc :: dict where
  "prefix_doc =
     [(''properties'',
         JObj [(''a'', JObj [(''type'', JStr ''string'')]),
               (''a.b'', JObj [(''type'', JStr ''string'')])])]"

definition mixed_doc :: dict where
  "mixed_doc =
     [(''properties'',
         JObj [(''a.b'', JObj [(''type'', JStr ''string'')]),
               (''a[*].c'', JObj [(''type'', JStr ''string'')])])]"

definition compatible_properties :: dict where
  "compatible_properties =
     [(''b.c.d[*].e'', JObj [(''type'', JStr ''string'')]),
      (''b.c.f'', JObj [(''type'', JStr ''number'')]),
      (''g'', JObj [(''type'', JStr ''string'')])]"

definition compatible_doc :: dict where
  "compatible_doc = [(''class'', JStr ''order''), (''properties'', JObj compatible_properties)]"

definition empty_object_doc :: dict where
  "empty_object_doc =
     [(''properties'',
         JObj [(''a'', JObj [(''type'', JStr ''object''), (''properties'', JObj [])])])]"

definition ref_doc :: dict where
  "ref_doc =
     [(''definitions'',
         JObj [(''Address'', JObj [(''properties'', JObj [(''street'', name_leaf)])])]),
      (''properties'', JObj [(''home'', JObj [(''$ref'', JStr ''#/definitions/Address'')])])]"

section \<open>Round trip: trees, shapes and Python equality\<close>

text \<open>
  The nested shape the round trip is stated for: a property is a leaf (any JSON value, kept
  verbatim), an object holding properties, or an array of objects holding properties.
\<close>

datatype ntree = Leaf json | ObjN "(string \<times> ntree) list" | ArrN "(string \<times> ntree) list"

text \<open>The document node the unflattener builds for a tree.\<close>

fun canon :: "ntree \<Rightarrow> json" and canon_props :: "(string \<times> ntree) list \<Rightarrow> dict" where
  "canon (Leaf l) = l"
| "canon (ObjN cs) = JObj [(''type'', JStr ''object''), (''properties'', JObj (canon_props cs))]"
| "canon (ArrN cs) =
     JObj [(''type'', JStr ''array''),
           (''items'', JObj [(''type'', JStr ''object''), (''properties'', JObj (canon_props cs))])]"
| "canon_props [] = []"
| "canon_props ((k, t) # cs) = (k, canon t) # canon_props cs"

text \<open>
  A document node has the shape of a tree when it is an object node, an array node or the
  leaf itself, as the tree says, with the properties in the order of the tree. An object node
  has type \<^verbatim>\<open>object\<close>, no \<^verbatim>\<open>$ref\<close> and a \<^verbatim>\<open>properties\<close> mapping; an array node has type
  \<^verbatim>\<open>array\<close>, no \<^verbatim>\<open>$ref\<close> and items that are an object node. The strict shape, for the round
  trip, allows no further key on such a node: an object node has exactly the keys \<^verbatim>\<open>type\<close>
  and \<^verbatim>\<open>properties\<close>, an array node exactly \<^verbatim>\<open>type\<close> and \<^verbatim>\<open>items\<close>, in any order.
\<close>

definition is_object_node :: "bool \<Rightarrow> dict \<Rightarrow> bool" where
  "is_object_node strict pd =
     ((if strict then set (map fst pd) = {''type'', ''properties''} else True)
      \<and> \<not> dict_in ''$ref'' pd
      \<and> map_of pd ''type'' = Some (JStr ''object''))"

definition is_array_node :: "bool \<Rightarrow> dict \<Rightarrow> bool" where
  "is_array_node strict pd =
     ((if strict then set (map fst pd) = {''type'', ''items''} else True)
      \<and> \<not> dict_in ''$ref'' pd
      \<and> map_of pd ''type'' = Some (JStr ''array''))"

definition object_properties :: "bool \<Rightarrow> json \<Rightarrow> dict option" where
  "object_properties strict j =
     (case j of
        JObj pd \<Rightarrow>
          (if is_object_node strict pd then
             (case map_of pd ''properties'' of Some (JObj qs) \<Rightarrow> Some qs | _ \<Rightarrow> None)
           else None)
      | _ \<Rightarrow> None)"

definition array_item_properties :: "bool \<Rightarrow> json \<Rightarrow> dict option" where
  "array_item_properties strict j =
     (case j of
        JObj pd \<Rightarrow>
          (if is_array_node strict pd then
             (case map_of pd ''items'' of
                Some it \<Rightarrow> object_properties strict it
              | None \<Rightarrow> None)
           else None)
      | _ \<Rightarrow> None)"

fun shape :: "bool \<Rightarrow> ntree \<Rightarrow> json \<Rightarrow> bool"
  and shapes :: "bool \<Rightarrow> (string \<times> ntree) list \<Rightarrow> dict \<Rightarrow> bool" where
  "shape strict (Leaf l) j = (j = l)"
| "shape strict (ObjN cs) j =
     (case object_properties strict j of Some qs \<Rightarrow> shapes strict cs qs | None \<Rightarrow> False)"
| "shape strict (ArrN cs) j =
     (case array_item_properties strict j of Some qs \<Rightarrow> shapes strict cs qs | None \<Rightarrow> False)"
| "shapes strict [] qs = (qs = [])"
| "shapes strict ((k, t) # cs) qs =
     (case qs of
        [] \<Rightarrow> False
      | (k', j) # qs' \<Rightarrow> k' = k \<and> shape strict t j \<and> shapes strict cs qs')"

text \<open>
  What the walk needs of a tree, given the definitions table of the document: every leaf is a
  mapping that the \<^verbatim>\<open>if\<close>/\<^verbatim>\<open>elif\<close> chain records as a leaf (this includes a \<^verbatim>\<open>$ref\<close> that is
  not expanded).
\<close>

fun walkable :: "json \<Rightarrow> ntree \<Rightarrow> bool"
  and walkable_props :: "json \<Rightarrow> (string \<times> ntree) list \<Rightarrow> bool" where
  "walkable defs (Leaf l) =
     (case l of JObj pd \<Rightarrow> flatten_dispatch defs [] pd = Terminal | _ \<Rightarrow> False)"
| "walkable defs (ObjN cs) = walkable_props defs cs"
| "walkable defs (ArrN cs) = walkable_props defs cs"
| "walkable_props defs [] = True"
| "walkable_props defs ((k, t) # cs) = (walkable defs t \<and> walkable_props defs cs)"

text \<open>
  The walk tells the top level from a nested level by the test \<^verbatim>\<open>if prefix\<close>, so an object
  at the top level needs a non-empty name for its properties to be walked as nested ones.
\<close>

fun is_object_tree :: "ntree \<Rightarrow> bool" where
  "is_object_tree (ObjN cs) = True"
| "is_object_tree _ = False"

definition top_objects_named :: "(string \<times> ntree) list \<Rightarrow> bool" where
  "top_objects_named ps = list_all (\<lambda>kt. \<not> (is_object_tree (snd kt) \<and> fst kt = [])) ps"

text \<open>
  What the reconstruction needs of a tree: property names contain neither a dot nor
  \<^verbatim>\<open>[*]\<close>, sibling names are distinct, and every object and array holds at least one
  property.
\<close>

definition name_ok :: "string \<Rightarrow> bool" where
  "name_ok n = (CHR ''.'' \<notin> set n \<and> \<not> str_contains ''[*]'' n)"

fun wf_tree :: "ntree \<Rightarrow> bool" and wf_props :: "(string \<times> ntree) list \<Rightarrow> bool" where
  "wf_tree (Leaf l) = True"
| "wf_tree (ObjN cs) = (cs \<noteq> [] \<and> wf_props cs)"
| "wf_tree (ArrN cs) = (cs \<noteq> [] \<and> wf_props cs)"
| "wf_props [] = True"
| "wf_props ((k, t) # cs) = (name_ok k \<and> k \<notin> fst ` set cs \<and> wf_tree t \<and> wf_props cs)"

text \<open>The number of nested calls of the walk that a tree needs below the first one.\<close>

fun tree_depth :: "ntree \<Rightarrow> nat" and props_depth :: "(string \<times> ntree) list \<Rightarrow> nat" where
  "tree_depth (Leaf l) = 0"
| "tree_depth (ObjN cs) = Suc (props_depth cs)"
| "tree_depth (ArrN cs) = Suc (props_depth cs)"
| "props_depth [] = 0"
| "props_depth ((k, t) # cs) = max (tree_depth t) (props_depth cs)"

text \<open>The leaves of a tree in the order of the walk, each with its parsed flat path.\<close>

fun tree_leaves :: "string \<Rightarrow> ntree \<Rightarrow> (part list \<times> json) list"
  and props_leaves :: "(string \<times> ntree) list \<Rightarrow> (part list \<times> json) list" where
  "tree_leaves n (Leaf l) = [([PropertyPart n], l)]"
| "tree_leaves n (ObjN cs) = map (\<lambda>pl. (PropertyPart n # fst pl, snd pl)) (props_leaves cs)"
| "tree_leaves n (ArrN cs) = map (\<lambda>pl. (ArrayPart n # fst pl, snd pl)) (props_leaves cs)"
| "props_leaves [] = []"
| "props_leaves ((k, t) # cs) = tree_leaves k t @ props_leaves cs"

text \<open>The flat path string of a parsed path.\<close>

fun segment :: "part \<Rightarrow> string" where
  "segment (PropertyPart n) = n"
| "segment (ArrayPart n) = n @ ''[*]''"

fun render :: "part list \<Rightarrow> string" where
  "render [] = []"
| "render [x] = segment x"
| "render (x # y # r) = segment x @ ''.'' @ render (y # r)"

text \<open>
  Python's \<^verbatim>\<open>==\<close> on JSON values: dictionaries are equal when they have the same keys and
  equal values under each key, whatever the order; lists are compared element by element;
  \<^verbatim>\<open>True == 1\<close> and \<^verbatim>\<open>False == 0\<close>.
\<close>

function py_eq :: "json \<Rightarrow> json \<Rightarrow> bool" where
  "py_eq JNull b = (b = JNull)"
| "py_eq (JBool x) b =
     (case b of JBool y \<Rightarrow> x = y | JInt i \<Rightarrow> i = (if x then 1 else 0) | _ \<Rightarrow> False)"
| "py_eq (JInt i) b =
     (case b of JInt j \<Rightarrow> i = j | JBool y \<Rightarrow> i = (if y then 1 else 0) | _ \<Rightarrow> False)"
| "py_eq (JStr s) b = (b = JStr s)"
| "py_eq (JArr xs) b =
     (case b of
        JArr ys \<Rightarrow> length xs = length ys \<and> list_all (\<lambda>xy. py_eq (fst xy) (snd xy)) (zip xs ys)
      | _ \<Rightarrow> False)"
| "py_eq (JObj d) b =
     (case b of
        JObj e \<Rightarrow>
          set (map fst d) = set (map fst e)
          \<and> list_all (\<lambda>k. case map_of d k of
                             None \<Rightarrow> False
                           | Some v \<Rightarrow> (case map_of e k of None \<Rightarrow> False | Some w \<Rightarrow> py_eq v w))
               (map fst d)
      | _ \<Rightarrow> False)"
  by pat_completeness auto

lemma map_of_size: "map_of d k = Some v \<Longrightarrow> size v < Suc (size_list (size_prod (\<lambda>_. 0) size) d)"
  by (induction d) (auto split: if_splits)

lemma mem_size: "x \<in> set xs \<Longrightarrow> size x < Suc (size_list size xs)"
  by (induction xs) auto

lemma zip_size: "(x, y) \<in> set (zip xs ys) \<Longrightarrow> size x < Suc (size_list size xs)"
  by (rule mem_size) (erule set_zip_leftD)

termination py_eq
proof (relation "measure (\<lambda>p. size (fst p))")
  show "wf (measure (\<lambda>p. size (fst p)))" by simp
next
  fix xs :: "json list" and b x2 and z :: "json \<times> json"
  assume "z \<in> set (zip xs x2)"
  then have "(fst z, snd z) \<in> set (zip xs x2)" by simp
  then show "((fst z, snd z), JArr xs, b) \<in> measure (\<lambda>p. size (fst p))"
    using zip_size by fastforce
next
  fix d :: dict and b x6 z x2 x2a
  assume "map_of d z = Some x2"
  then show "((x2, x2a), JObj d, b) \<in> measure (\<lambda>p. size (fst p))"
    using map_of_size by fastforce
qed

text \<open>The loop of \<^verbatim>\<open>unflatten_schema\<close> on parsed paths, and the walk's records.\<close>

fun unflatten_paths :: "(part list \<times> json) list \<Rightarrow> json \<Rightarrow> error + json" where
  "unflatten_paths [] l = Inr l"
| "unflatten_paths ((p, d) # xs) l =
     (case unflatten_parts p d l of Inl e \<Rightarrow> Inl e | Inr l' \<Rightarrow> unflatten_paths xs l')"

definition record_all :: "(string \<times> json) list \<Rightarrow> flat_state \<Rightarrow> flat_state" where
  "record_all xs st = fold (\<lambda>kv. record_leaf (fst kv) (snd kv)) xs st"

definition rendered :: "part list \<Rightarrow> (part list \<times> json) list \<Rightarrow> (string \<times> json) list" where
  "rendered pre xs = map (\<lambda>pl. (render (pre @ fst pl), snd pl)) xs"

text \<open>
  A nested document after the repository's round-trip test, with an object and a leaf named by
  the empty string below the top level and a \<^verbatim>\<open>$ref\<close> that resolves to no definition, and
  its tree.
\<close>

definition street_leaf :: json where
  "street_leaf = JObj [(''type'', JStr ''string''), (''instruction'', JStr ''Extract street'')]"

definition price_leaf :: json where
  "price_leaf = JObj [(''instruction'', JStr ''Extract item price''), (''type'', JStr ''number'')]"

definition complex_properties :: dict where
  "complex_properties =
     [(''invoice_number'', name_leaf),
      (''customer'',
         JObj [(''type'', JStr ''object''),
               (''properties'',
                  JObj [(''name'', name_leaf),
                        (''address'',
                           JObj [(''properties'',
                                    JObj [(''street'', street_leaf),
                                          ([], object_of ''unit'' price_leaf)]),
                                 (''type'', JStr ''object'')])])]),
      (''items'',
         JObj [(''type'', JStr ''array''),
               (''items'',
                  JObj [(''type'', JStr ''object''),
                        (''properties'', JObj [(''price'', price_leaf), ([], name_leaf)])])]),
      (''link'', JObj [(''$ref'', JStr ''#/definitions/Missing'')])]"

definition complex_doc :: dict where
  "complex_doc =
     [(''$schema'', JStr ''http://json-schema.org/draft-07/schema#''),
      (''properties'', JObj complex_properties),
      (''description'', JStr ''Complex test schema'')]"

definition complex_tree :: "(string \<times> ntree) list" where
  "complex_tree =
     [(''invoice_number'', Leaf name_leaf),
      (''customer'',
         ObjN [(''name'', Leaf name_leaf),
               (''address'',
                  ObjN [(''street'', Leaf street_leaf), ([], ObjN [(''unit'', Leaf price_leaf)])])]),
      (''items'', ArrN [(''price'', Leaf price_leaf), ([], Leaf name_leaf)]),
      (''link'', Leaf (JObj [(''$ref'', JStr ''#/definitions/Missing'')]))]"

text \<open>A held document whose definition \<open>Node\<close> refers to itself.\<close>

definition node_ref :: json where
  "node_ref = JObj [(''$ref'', JStr ''#/definitions/Node'')]"

definition cyclic_definitions :: dict where
  "cyclic_definitions = [(''Node'', JObj [(''properties'', JObj [(''next'', node_ref)])])]"

definition cyclic_schema :: Schema where
  "cyclic_schema =
     \<lparr>schema = ''http://json-schema.org/draft-07/schema#'', description = ''List'',
      class' = ''List'', Schema.type = ''object'', definitions = cyclic_definitions,
      properties = [(''head'', Raw node_ref)]\<rparr>"


text \<open>What the two transformations make of the document with a \<^verbatim>\<open>$ref\<close>.\<close>

definition ref_flat :: dict where
  "ref_flat =
     [(''definitions'',
         JObj [(''Address'', JObj [(''properties'', JObj [(''street'', name_leaf)])])]),
      (''properties'', JObj [(''home.street'', name_leaf)])]"

definition ref_rebuilt :: dict where
  "ref_rebuilt =
     [(''definitions'',
         JObj [(''Address'', JObj [(''properties'', JObj [(''street'', name_leaf)])])]),
      (''properties'',
         JObj [(''home'',
                 JObj [(''type'', JStr ''object''),
                       (''properties'', JObj [(''street'', name_leaf)])])])]"

section \<open>Verified properties\<close>

subsection \<open>Nested detection\<close>

lemma prop_is_nested_spec: "prop_is_nested p = spec_nested_property p"
  by (cases p)
     (auto simp: spec_nested_property_def dict_get_or_def dict_in_def Let_def
           split: option.splits json.splits)

lemma has_nested_loop_ex: "has_nested_loop ps = (\<exists>p\<in>set ps. spec_nested_property (snd p))"
  by (induction ps rule: has_nested_loop.induct) (auto simp: prop_is_nested_spec)

lemma bare_not_nested: "bare_property p \<Longrightarrow> \<not> spec_nested_property p"
  by (cases p)
     (auto simp: spec_nested_property_def bare_property_def dict_in_def
           split: option.splits json.splits)

text \<open>
  Claim C4. \<^verbatim>\<open>is_nested_schema\<close> returns False on a document without \<^verbatim>\<open>properties\<close>, and
  on a document whose \<^verbatim>\<open>properties\<close> is a mapping it returns True exactly when at least one
  top-level property is a node carrying \<^verbatim>\<open>$ref\<close>, or has type \<^verbatim>\<open>object\<close> and a
  \<^verbatim>\<open>properties\<close> entry, or has type \<^verbatim>\<open>array\<close> and items of type \<^verbatim>\<open>object\<close> with a
  \<^verbatim>\<open>properties\<close> entry. In particular, when every property is a bare array or an object
  lacking \<^verbatim>\<open>properties\<close>, the document does not count as nested. (The code tests that the
  \<^verbatim>\<open>properties\<close> key is present, which is how the sub-mapping of the contract is read here.)
\<close>

theorem is_nested_schema_contract:
  "(map_of D ''properties'' = None \<longrightarrow> is_nested_schema D = Inr False)
   \<and> (\<forall>ps. map_of D ''properties'' = Some (JObj ps) \<longrightarrow>
          is_nested_schema D = Inr (\<exists>p\<in>set ps. spec_nested_property (snd p))
          \<and> ((\<forall>p\<in>set ps. bare_property (snd p)) \<longrightarrow> is_nested_schema D = Inr False))"
  by (auto simp: is_nested_schema_def has_nested_loop_ex dest: bare_not_nested)

theorem is_nested_schema_contract_witness:
  "is_nested_schema customer_doc = Inr True \<and> is_nested_schema malformed_doc = Inr False
   \<and> is_nested_schema [] = Inr False"
  using is_nested_schema_contract [of customer_doc] is_nested_schema_contract [of malformed_doc]
    is_nested_schema_contract [of "[]"]
  by (simp add: customer_doc_def malformed_doc_def spec_nested_property_def bare_property_def
        dict_in_def name_leaf_def)

subsection \<open>The fast paths\<close>

text \<open>
  Claim C5. On every document for which nested detection returns False, \<^verbatim>\<open>flatten_schema\<close>
  returns the document itself, with the same keys and values in the same order, and the empty
  index.
\<close>

theorem flatten_flat_identity:
  "is_nested_schema D = Inr False \<Longrightarrow> flatten_schema limit D = Inr (D, [])"
  by (simp add: flatten_schema_def)

theorem flatten_flat_identity_witness:
  "is_nested_schema malformed_doc = Inr False
   \<and> flatten_schema 10 malformed_doc = Inr (malformed_doc, [])"
proof -
  have h: "is_nested_schema malformed_doc = Inr False"
    by (simp add: is_nested_schema_def malformed_doc_def dict_in_def dict_get_or_def)
  show ?thesis using h flatten_flat_identity [OF h, of 10] by simp
qed

text \<open>
  Claim C6. With the empty index, \<^verbatim>\<open>unflatten_schema\<close> returns the document it was given,
  and \<^verbatim>\<open>unflatten_from_optimization\<close> returns the flat schema it was given; neither result
  depends on what the unflattener would build.
\<close>

theorem unflatten_empty_index:
  "unflatten_schema D [] = Inr D \<and> unflatten_from_optimization self flat [] = Inr flat"
  by (simp add: unflatten_schema_def unflatten_from_optimization_def)

theorem unflatten_empty_index_witness:
  "unflatten_schema customer_doc [] = Inr customer_doc"
  using unflatten_empty_index [of customer_doc] by simp

text \<open>
  Claim C10. For two non-empty indices, \<^verbatim>\<open>unflatten_schema\<close> returns the same result (the same
  document or the same exception) on the same flat document: the index is only tested for
  emptiness.
\<close>

theorem unflatten_ignores_index:
  "m1 \<noteq> [] \<Longrightarrow> m2 \<noteq> [] \<Longrightarrow> unflatten_schema F m1 = unflatten_schema F m2"
  by (simp add: unflatten_schema_def)

theorem unflatten_ignores_index_witness:
  "[(''a'', ''a'')] \<noteq> [] \<and> [(''b'', ''c''), (''d'', ''e'')] \<noteq> []
   \<and> unflatten_schema customer_doc [(''a'', ''a'')]
       = unflatten_schema customer_doc [(''b'', ''c''), (''d'', ''e'')]"
  using unflatten_ignores_index [of "[(''a'', ''a'')]" "[(''b'', ''c''), (''d'', ''e'')]" customer_doc]
  by simp

subsection \<open>Document-level flattening\<close>

lemma update_absent: "k \<notin> fst ` set al \<Longrightarrow> AList.update k v al = al @ [(k, v)]"
  by (induction al) auto

lemma filter_update_same:
  "filter (\<lambda>kv. fst kv \<noteq> k) (AList.update k v al) = filter (\<lambda>kv. fst kv \<noteq> k) al"
  by (induction al) auto

lemma keep_well_formed_keys: "fst ` set (keep_well_formed fps) \<subseteq> fst ` set fps"
  by (induction fps rule: keep_well_formed.induct) (auto split: sum.splits)

lemma coerce_loop_distinct:
  "distinct (map fst fps) \<Longrightarrow> fst ` set fps \<inter> fst ` set (fst acc) = {} \<Longrightarrow>
   coerce_loop fps acc = (fst acc @ keep_well_formed fps, snd acc @ skipped_fields fps)"
proof (induction fps arbitrary: acc)
  case Nil
  then show ?case by simp
next
  case (Cons a fps)
  obtain k v where a: "a = (k, v)" by (cases a)
  show ?case
  proof (cases "SchemaProperty_init v")
    case (Inl e)
    then show ?thesis using Cons.prems a Cons.IH [of "(fst acc, snd acc @ [(k, e)])"]
      by auto
  next
    case (Inr p)
    have k: "k \<notin> fst ` set (fst acc)" using Cons.prems a by auto
    have "fst ` set fps \<inter> fst ` set (fst acc @ [(k, Model p)]) = {}"
      using Cons.prems a by auto
    then show ?thesis
      using Inr Cons.prems a Cons.IH [of "(fst acc @ [(k, Model p)], snd acc)"]
      by (simp add: update_absent [OF k])
  qed
qed

lemma flatten_schema_meta:
  "flatten_schema limit D = Inr (F, idx) \<Longrightarrow>
   filter (\<lambda>kv. fst kv \<noteq> ''properties'') F = filter (\<lambda>kv. fst kv \<noteq> ''properties'') D"
  by (auto simp: flatten_schema_def filter_update_same Let_def split: sum.splits bool.splits option.splits)

lemma Schema_init_dump:
  "Schema_init (filter (\<lambda>kv. fst kv \<noteq> ''properties'') (model_dump s)) ps
     = Inr (s\<lparr>properties := ps\<rparr>)"
  by (simp add: Schema_init_def model_dump_def dict_get_or_def)

lemma record_leaf_keys:
  "map fst (fst st) = map fst (snd st) \<Longrightarrow>
   map fst (fst (record_leaf p v st)) = map fst (snd (record_leaf p v st))"
  by (simp add: record_leaf_def update_keys)

lemma record_leaf_distinct:
  "distinct (map fst (fst st)) \<Longrightarrow> distinct (map fst (fst (record_leaf p v st)))"
  by (simp add: record_leaf_def distinct_update)

lemma flatten_keys:
  "flatten_properties d defs props prefix st = Inr st' \<Longrightarrow>
     map fst (fst st) = map fst (snd st) \<Longrightarrow> map fst (fst st') = map fst (snd st')"
  "flatten_items d defs ps prefix st = Inr st' \<Longrightarrow>
     map fst (fst st) = map fst (snd st) \<Longrightarrow> map fst (fst st') = map fst (snd st')"
  by (induction d defs props prefix st and d defs ps prefix st arbitrary: st' and st'
       rule: flatten_properties_flatten_items.induct)
     (auto simp: Let_def record_leaf_keys split: json.splits action.splits sum.splits)

lemma flatten_distinct:
  "flatten_properties d defs props prefix st = Inr st' \<Longrightarrow>
     distinct (map fst (fst st)) \<Longrightarrow> distinct (map fst (fst st'))"
  "flatten_items d defs ps prefix st = Inr st' \<Longrightarrow>
     distinct (map fst (fst st)) \<Longrightarrow> distinct (map fst (fst st'))"
  by (induction d defs props prefix st and d defs ps prefix st arbitrary: st' and st'
       rule: flatten_properties_flatten_items.induct)
     (auto simp: Let_def record_leaf_distinct split: json.splits action.splits sum.splits)

lemma flatten_schema_props:
  assumes "flatten_schema limit D = Inr (F, idx)"
    and "map_of D ''properties'' = Some (JObj ps)" "distinct (map fst ps)"
  shows "\<exists>fps. map_of F ''properties'' = Some (JObj fps) \<and> distinct (map fst fps)"
proof (cases "is_nested_schema D")
  case (Inl e)
  then show ?thesis using assms by (simp add: flatten_schema_def)
next
  case (Inr b)
  show ?thesis
  proof (cases b)
    case False
    then show ?thesis using assms Inr by (simp add: flatten_schema_def)
  next
    case True
    then obtain fl mp where
      f: "flatten_properties limit (dict_get_or D ''definitions'' (JObj [])) (JObj ps) [] ([], []) = Inr (fl, mp)"
      and F: "F = AList.update ''properties'' (JObj fl) D"
      using assms Inr by (auto simp: flatten_schema_def Let_def split: sum.splits)
    have "distinct (map fst fl)" using flatten_distinct(1) [OF f] by simp
    then show ?thesis using F by (simp add: update_conv')
  qed
qed

lemma validate_str_error: "validate_str x d = Inl e \<Longrightarrow> e = ValidationError"
  by (induction x d rule: validate_str.induct) auto

lemma init_missing:
  "\<not> dict_in ''type'' pd \<or> \<not> dict_in ''inferenceType'' pd \<or> \<not> dict_in ''instruction'' pd \<Longrightarrow>
   SchemaProperty_init (JObj pd) = Inl ValidationError"
  by (auto simp: dict_in_def split: sum.splits dest: validate_str_error)

lemma set_update_subset: "set (AList.update k v al) \<subseteq> insert (k, v) (set al)"
  by (induction al) auto

lemma skipped_fields_mem:
  "(k, v) \<in> set fps \<Longrightarrow> SchemaProperty_init v = Inl e \<Longrightarrow> (k, e) \<in> set (skipped_fields fps)"
  by (induction fps rule: skipped_fields.induct) (auto split: sum.splits)

lemma keep_well_formed_mem:
  "(k, pv) \<in> set (keep_well_formed fps) \<Longrightarrow>
   \<exists>v p. (k, v) \<in> set fps \<and> SchemaProperty_init v = Inr p \<and> pv = Model p"
  by (induction fps rule: keep_well_formed.induct) (auto split: sum.splits)

lemma skipped_fields_source:
  "(k, e) \<in> set (skipped_fields fps) \<Longrightarrow>
   \<exists>v. (k, v) \<in> set fps \<and> SchemaProperty_init v = Inl e"
  by (induction fps rule: skipped_fields.induct) (auto split: sum.splits)

lemma keep_well_formed_kept:
  "(k, v) \<in> set fps \<Longrightarrow> SchemaProperty_init v = Inr p \<Longrightarrow>
   (k, Model p) \<in> set (keep_well_formed fps)"
  by (induction fps rule: keep_well_formed.induct) (auto split: sum.splits)

lemma init_three_strings:
  "map_of pd ''type'' = Some (JStr t) \<Longrightarrow> map_of pd ''inferenceType'' = Some (JStr i) \<Longrightarrow>
   map_of pd ''instruction'' = Some (JStr s) \<Longrightarrow>
   SchemaProperty_init (JObj pd)
     = Inr \<lparr>SchemaProperty.type = t, inferenceType = i, instruction = s\<rparr>"
  by simp

text \<open>
  Claim C8, as amended. Whenever the flattener itself returns on the held document (whose
  property names are distinct, as in any dictionary), \<^verbatim>\<open>flatten_for_optimization\<close> returns
  too, without raising: the flattened schema holds the held document's metadata and exactly
  the flat leaves that coerce to the three-field shape, in their order; every other flat leaf
  is skipped with one logged warning; a leaf from which one of \<^verbatim>\<open>type\<close>, \<^verbatim>\<open>inferenceType\<close>,
  \<^verbatim>\<open>instruction\<close> is missing is among the skipped ones and not among the kept ones; and a
  leaf that holds the three fields as strings is kept, with these three fields, and not
  skipped.
\<close>

theorem flatten_for_optimization_drops_malformed:
  assumes "flatten_schema limit (model_dump self) = Inr (F, idx)"
    and "distinct (map fst (properties self))"
  shows "\<exists>fps. map_of F ''properties'' = Some (JObj fps)
           \<and> flatten_for_optimization limit self
               = (skipped_fields fps, Inr (self\<lparr>properties := keep_well_formed fps\<rparr>, idx))
           \<and> (\<forall>k pd. (k, JObj pd) \<in> set fps
                  \<and> (\<not> dict_in ''type'' pd \<or> \<not> dict_in ''inferenceType'' pd
                      \<or> \<not> dict_in ''instruction'' pd)
                \<longrightarrow> (k, ValidationError) \<in> set (skipped_fields fps)
                    \<and> k \<notin> fst ` set (keep_well_formed fps))
           \<and> (\<forall>k pd t i s. (k, JObj pd) \<in> set fps
                  \<and> map_of pd ''type'' = Some (JStr t)
                  \<and> map_of pd ''inferenceType'' = Some (JStr i)
                  \<and> map_of pd ''instruction'' = Some (JStr s)
                \<longrightarrow> (k, Model \<lparr>SchemaProperty.type = t, inferenceType = i, instruction = s\<rparr>)
                       \<in> set (keep_well_formed fps)
                    \<and> k \<notin> fst ` set (skipped_fields fps))"
proof -
  have mp: "map_of (model_dump self) ''properties''
              = Some (JObj (map (\<lambda>kv. (fst kv, dump_value (snd kv))) (properties self)))"
    by (simp add: model_dump_def)
  have "distinct (map fst (map (\<lambda>kv. (fst kv, dump_value (snd kv))) (properties self)))"
    using assms(2) by (simp add: comp_def)
  from flatten_schema_props [OF assms(1) mp this]
  obtain fps where fps: "map_of F ''properties'' = Some (JObj fps)" "distinct (map fst fps)"
    by blast
  have meta: "filter (\<lambda>kv. fst kv \<noteq> ''properties'') F
                = filter (\<lambda>kv. fst kv \<noteq> ''properties'') (model_dump self)"
    by (rule flatten_schema_meta [OF assms(1)])
  have loop: "coerce_loop fps ([], []) = (keep_well_formed fps, skipped_fields fps)"
    using coerce_loop_distinct [of fps "([], [])"] fps(2) by simp
  have run: "flatten_for_optimization limit self
               = (skipped_fields fps, Inr (self\<lparr>properties := keep_well_formed fps\<rparr>, idx))"
    using assms(1) fps(1)
    by (simp add: flatten_for_optimization_def dict_get_or_def loop meta Schema_init_dump)
  have drop: "(k, ValidationError) \<in> set (skipped_fields fps)
              \<and> k \<notin> fst ` set (keep_well_formed fps)"
    if h: "(k, JObj pd) \<in> set fps"
      "\<not> dict_in ''type'' pd \<or> \<not> dict_in ''inferenceType'' pd \<or> \<not> dict_in ''instruction'' pd"
    for k pd
  proof
    have bad: "SchemaProperty_init (JObj pd) = Inl ValidationError"
      using init_missing h(2) by blast
    show "(k, ValidationError) \<in> set (skipped_fields fps)"
      using skipped_fields_mem [OF h(1) bad] .
    show "k \<notin> fst ` set (keep_well_formed fps)"
    proof
      assume "k \<in> fst ` set (keep_well_formed fps)"
      then obtain pv where "(k, pv) \<in> set (keep_well_formed fps)" by auto
      from keep_well_formed_mem [OF this] obtain v p where
        v: "(k, v) \<in> set fps" "SchemaProperty_init v = Inr p" by blast
      have "v = JObj pd" using v(1) h(1) fps(2) by (meson eq_key_imp_eq_value)
      then show False using v(2) bad by simp
    qed
  qed
  have keep: "(k, Model \<lparr>SchemaProperty.type = t, inferenceType = i, instruction = s\<rparr>)
                 \<in> set (keep_well_formed fps)
              \<and> k \<notin> fst ` set (skipped_fields fps)"
    if h: "(k, JObj pd) \<in> set fps" "map_of pd ''type'' = Some (JStr t)"
      "map_of pd ''inferenceType'' = Some (JStr i)" "map_of pd ''instruction'' = Some (JStr s)"
    for k pd t i s
  proof
    have ok: "SchemaProperty_init (JObj pd)
                = Inr \<lparr>SchemaProperty.type = t, inferenceType = i, instruction = s\<rparr>"
      by (rule init_three_strings [OF h(2,3,4)])
    show "(k, Model \<lparr>SchemaProperty.type = t, inferenceType = i, instruction = s\<rparr>)
            \<in> set (keep_well_formed fps)"
      by (rule keep_well_formed_kept [OF h(1) ok])
    show "k \<notin> fst ` set (skipped_fields fps)"
    proof
      assume "k \<in> fst ` set (skipped_fields fps)"
      then obtain e where "(k, e) \<in> set (skipped_fields fps)" by auto
      from skipped_fields_source [OF this] obtain v where
        v: "(k, v) \<in> set fps" "SchemaProperty_init v = Inl e" by blast
      have "v = JObj pd" using v(1) h(1) fps(2) by (meson eq_key_imp_eq_value)
      then show False using v(2) ok by simp
    qed
  qed
  have c1: "\<forall>k pd. (k, JObj pd) \<in> set fps
                  \<and> (\<not> dict_in ''type'' pd \<or> \<not> dict_in ''inferenceType'' pd
                      \<or> \<not> dict_in ''instruction'' pd)
                \<longrightarrow> (k, ValidationError) \<in> set (skipped_fields fps)
                    \<and> k \<notin> fst ` set (keep_well_formed fps)"
    using drop by blast
  have c2: "\<forall>k pd t i s. (k, JObj pd) \<in> set fps
                  \<and> map_of pd ''type'' = Some (JStr t)
                  \<and> map_of pd ''inferenceType'' = Some (JStr i)
                  \<and> map_of pd ''instruction'' = Some (JStr s)
                \<longrightarrow> (k, Model \<lparr>SchemaProperty.type = t, inferenceType = i, instruction = s\<rparr>)
                       \<in> set (keep_well_formed fps)
                    \<and> k \<notin> fst ` set (skipped_fields fps)"
    using keep by blast
  show ?thesis using fps(1) run c1 c2 by blast
qed

lemma coerce_loop_models:
  "\<forall>kv\<in>set (fst acc). \<exists>p. snd kv = Model p \<Longrightarrow>
   \<forall>kv\<in>set (fst (coerce_loop fps acc)). \<exists>p. snd kv = Model p"
proof (induction fps acc rule: coerce_loop.induct)
  case (1 acc)
  then show ?case by simp
next
  case (2 field_name prop_def rest acc)
  show ?case
  proof (cases "SchemaProperty_init prop_def")
    case (Inl e)
    then show ?thesis using "2.IH"(1) [OF Inl] "2.prems" by simp
  next
    case (Inr p)
    have "set (AList.update field_name (Model p) (fst acc))
            \<subseteq> insert (field_name, Model p) (set (fst acc))"
      by (rule set_update_subset)
    then have "\<forall>kv\<in>set (AList.update field_name (Model p) (fst acc)). \<exists>p. snd kv = Model p"
      using "2.prems" by fastforce
    then show ?thesis using "2.IH"(2) [OF Inr] Inr by simp
  qed
qed

lemma Schema_init_props: "Schema_init kw ps = Inr s \<Longrightarrow> properties s = ps"
  by (auto simp: Schema_init_def split: sum.splits json.splits)

text \<open>
  Claim C9. Every leaf of the flat schema returned by \<^verbatim>\<open>flatten_for_optimization\<close> is a
  \<^verbatim>\<open>SchemaProperty\<close>: dumped, it is a dictionary with exactly the three keys \<^verbatim>\<open>type\<close>,
  \<^verbatim>\<open>inferenceType\<close> and \<^verbatim>\<open>instruction\<close>, each holding a string, whatever other keys the
  source leaf carried.
\<close>

theorem flattened_leaf_three_fields:
  assumes "flatten_for_optimization limit self = (W, Inr (S, idx))"
  shows "\<forall>kv\<in>set (properties S). \<exists>t i s.
           dump_value (snd kv)
             = JObj [(''type'', JStr t), (''inferenceType'', JStr i), (''instruction'', JStr s)]"
proof -
  have "\<exists>fps. properties S = fst (coerce_loop fps ([], []))"
    using assms
    by (auto simp: flatten_for_optimization_def Let_def split: sum.splits json.splits prod.splits
             dest!: Schema_init_props) (metis fst_conv)
  then obtain fps where "properties S = fst (coerce_loop fps ([], []))" ..
  moreover have "\<forall>kv\<in>set (fst (coerce_loop fps ([], []))). \<exists>p. snd kv = Model p"
    by (rule coerce_loop_models) simp
  ultimately show ?thesis by (fastforce simp: dump_property_def)
qed

lemma order_flatten:
  "flatten_schema 10 (model_dump order_schema)
     = Inr (AList.update ''properties'' (JObj order_flat_properties) (model_dump order_schema),
            order_index)"
  by code_simp

lemma order_run:
  "flatten_for_optimization 10 order_schema
     = ([(''customer.age'', ValidationError)],
        Inr (order_schema\<lparr>properties := order_kept\<rparr>, order_index))"
  by code_simp

theorem flatten_for_optimization_drops_malformed_witness:
  "distinct (map fst (properties order_schema))
   \<and> flatten_schema 10 (model_dump order_schema)
       = Inr (AList.update ''properties'' (JObj order_flat_properties) (model_dump order_schema),
              order_index)
   \<and> flatten_for_optimization 10 order_schema
       = ([(''customer.age'', ValidationError)],
          Inr (order_schema\<lparr>properties := order_kept\<rparr>, order_index))"
proof -
  have d: "distinct (map fst (properties order_schema))"
    by (simp add: order_schema_def)
  from flatten_for_optimization_drops_malformed [OF order_flatten d]
  obtain fps where
    f: "map_of (AList.update ''properties'' (JObj order_flat_properties) (model_dump order_schema))
          ''properties'' = Some (JObj fps)"
    and r: "flatten_for_optimization 10 order_schema
              = (skipped_fields fps,
                 Inr (order_schema\<lparr>properties := keep_well_formed fps\<rparr>, order_index))"
    by blast
  have "fps = order_flat_properties" using f by (simp add: update_conv')
  then show ?thesis using r d order_flatten
    by (simp add: order_flat_properties_def name_leaf_def order_kept_def)
qed

text \<open>
  The claim as stated fails for a held document with a definition that refers to itself: the
  walk follows the \<^verbatim>\<open>$ref\<close> into the definition again and again, whatever the recursion
  limit, and \<^verbatim>\<open>flatten_for_optimization\<close>, which guards only the coercion of the leaves,
  lets the RecursionError through.
\<close>

lemma node_ref_dispatch:
  "flatten_dispatch (JObj cyclic_definitions) p [(''$ref'', JStr ''#/definitions/Node'')]
     = Recurse (JObj [(''next'', node_ref)]) p"
  by (simp add: flatten_dispatch_def cyclic_definitions_def resolve_definition_def dict_in_def
        startswith_def)

lemma cyclic_walk:
  "flatten_properties d (JObj cyclic_definitions) (JObj [(n, node_ref)]) prefix st
     = Inl RecursionError"
proof (induction d arbitrary: n prefix st)
  case 0
  then show ?case by simp
next
  case (Suc d)
  show ?case by (simp add: node_ref_def node_ref_dispatch Let_def Suc [unfolded node_ref_def])
qed

lemma cyclic_raises: "flatten_for_optimization limit cyclic_schema = ([], Inl RecursionError)"
proof -
  have "flatten_schema limit (model_dump cyclic_schema) = Inl RecursionError"
    using cyclic_walk [of limit "''head''" "[]" "([], [])"]
    by (simp add: flatten_schema_def is_nested_schema_def model_dump_def cyclic_schema_def
          dict_get_or_def node_ref_def dict_in_def)
  then show ?thesis by (simp add: flatten_for_optimization_def)
qed

theorem flatten_for_optimization_cyclic_counterexample:
  "flatten_for_optimization 1000 cyclic_schema = ([], Inl RecursionError)"
  by (rule cyclic_raises)

theorem flattened_leaf_three_fields_witness:
  "flatten_for_optimization 10 order_schema
     = ([(''customer.age'', ValidationError)],
        Inr (order_schema\<lparr>properties := order_kept\<rparr>, order_index))
   \<and> map (\<lambda>kv. dump_value (snd kv)) order_kept
       = [JObj [(''type'', JStr ''string''), (''inferenceType'', JStr ''explicit''),
                (''instruction'', JStr ''Extract name'')],
          JObj [(''type'', JStr ''number''), (''inferenceType'', JStr ''explicit''),
                (''instruction'', JStr ''Extract total'')]]"
  using flattened_leaf_three_fields [OF order_run] order_run
  by (simp add: order_kept_def dump_property_def)

subsection \<open>Two shapes of the path grammar\<close>

lemma leaf_dispatch:
  "\<not> spec_nested_property (JObj pd) \<Longrightarrow> flatten_dispatch defs p pd = Terminal"
  by (auto simp: spec_nested_property_def flatten_dispatch_def dict_in_def dict_get_or_def Let_def
           split: option.splits json.splits)

text \<open>
  The two shapes with arbitrary names: an array of objects \<open>a\<close> whose item object holds the
  leaf \<open>b\<close> gives the single flat key \<open>a[*].b\<close>, and an object \<open>a\<close> with a non-empty name that
  holds an object \<open>b\<close> that holds the leaf \<open>c\<close> gives \<open>a.b.c\<close>.
\<close>

lemma two_shapes_grammar:
  assumes "\<not> spec_nested_property (JObj leaf)"
  shows "flatten_schema (Suc (Suc n)) [(''properties'', JObj [(a, array_of_objects b (JObj leaf))])]
           = Inr ([(''properties'', JObj [(a @ ''[*].'' @ b, JObj leaf)])],
                  [(a @ ''[*].'' @ b, a @ ''[*].'' @ b)])
         \<and> (a \<noteq> [] \<longrightarrow>
              flatten_schema (Suc (Suc (Suc n)))
                  [(''properties'', JObj [(a, object_of b (object_of c (JObj leaf)))])]
                = Inr ([(''properties'', JObj [(a @ ''.'' @ b @ ''.'' @ c, JObj leaf)])],
                       [(a @ ''.'' @ b @ ''.'' @ c, a @ ''.'' @ b @ ''.'' @ c)]))"
proof -
  have A: "flatten_dispatch defs p
        [(''type'', JStr ''array''),
           (''items'', JObj [(''type'', JStr ''object''), (''properties'', JObj ps)])]
       = Recurse (JObj ps) (p @ ''[*]'')" for defs p ps
    by (simp add: flatten_dispatch_def dict_in_def dict_get_or_def)
  have O: "flatten_dispatch defs p [(''type'', JStr ''object''), (''properties'', JObj ps)]
       = Recurse (JObj ps) p" for defs p ps
    by (simp add: flatten_dispatch_def dict_in_def dict_get_or_def)
  have 1: "flatten_schema (Suc (Suc n)) [(''properties'', JObj [(a, array_of_objects b (JObj leaf))])]
           = Inr ([(''properties'', JObj [(a @ ''[*].'' @ b, JObj leaf)])],
                  [(a @ ''[*].'' @ b, a @ ''[*].'' @ b)])"
    using assms
    by (simp add: flatten_schema_def is_nested_schema_def array_of_objects_def dict_in_def
          dict_get_or_def A leaf_dispatch record_leaf_def build_nested_path_def Let_def)
  have 2: "flatten_schema (Suc (Suc (Suc n)))
             [(''properties'', JObj [(a, object_of b (object_of c (JObj leaf)))])]
           = Inr ([(''properties'', JObj [(a @ ''.'' @ b @ ''.'' @ c, JObj leaf)])],
                  [(a @ ''.'' @ b @ ''.'' @ c, a @ ''.'' @ b @ ''.'' @ c)])" if "a \<noteq> []"
    using assms that
    by (simp add: flatten_schema_def is_nested_schema_def object_of_def dict_in_def
          dict_get_or_def O leaf_dispatch record_leaf_def build_nested_path_def Let_def)
  show ?thesis using 1 2 by blast
qed

subsection \<open>Totality of the unflattener\<close>

lemma map_of_update_same: "map_of (AList.update k v al) k = Some v"
  by (simp add: update_conv')

lemma unflatten_parts_node:
  "unflatten_parts (x # rest) d (JObj L)
     = (case node_after x rest d (map_of L (part_name x)) of
          Inl e \<Rightarrow> Inl e
        | Inr node' \<Rightarrow> Inr (JObj (AList.update (part_name x) node' L)))"
proof (cases x)
  case (PropertyPart n)
  show ?thesis
  proof (cases "map_of L n")
    case None
    then show ?thesis using PropertyPart
      by (auto simp: node_after_def dict_in_def map_of_update_same Let_def split: sum.splits)
  next
    case (Some v)
    then show ?thesis using PropertyPart
      by (auto simp: node_after_def dict_in_def Let_def split: sum.splits)
  qed
next
  case (ArrayPart n)
  show ?thesis
  proof (cases "map_of L n")
    case None
    then show ?thesis using ArrayPart
      by (auto simp: node_after_def dict_in_def map_of_update_same Let_def array_node_def
               split: sum.splits)
  next
    case (Some v)
    then show ?thesis using ArrayPart
      by (cases v) (auto simp: node_after_def dict_in_def Let_def split: sum.splits)
  qed
qed

lemma unflatten_parts_level:
  "p \<noteq> [] \<Longrightarrow> unflatten_parts p d l = Inr l' \<Longrightarrow> \<exists>L. l = JObj L"
  by (cases p; cases "hd p"; cases l) (auto split: if_splits)

lemma unflatten_parts_result:
  "unflatten_parts p d (JObj L) = Inr l' \<Longrightarrow> \<exists>L'. l' = JObj L'"
  by (cases p) (auto simp: unflatten_parts_node split: sum.splits)

lemma put_getitem:
  "py_getitem node k = Inr old \<Longrightarrow> py_getitem (put k v node) k = Inr v"
  by (cases node) (auto simp: map_of_update_same)

lemma put_getitem_other:
  "k \<noteq> k' \<Longrightarrow> py_getitem (put k v node) k' = py_getitem node k'"
  by (cases node) (auto simp: update_conv')

lemma put_dict: "py_getitem node k = Inr old \<Longrightarrow> \<exists>d. put k' v node = JObj d"
  by (cases node) auto

lemma setitem_dict: "py_setitem node k v = Inr node' \<Longrightarrow> \<exists>d. node' = JObj d"
  by (cases node) auto

lemma unflatten_empty_level: "\<exists>r. unflatten_parts q d (JObj []) = Inr r"
proof (induction q)
  case Nil
  then show ?case by simp
next
  case (Cons x rest)
  then obtain r where r: "unflatten_parts rest d (JObj []) = Inr r" by blast
  show ?case
    by (cases x)
       (auto simp: unflatten_parts_node node_after_def object_node_def array_node_def r Let_def)
qed

lemma step_preserves:
  "unflatten_parts p dp l = Inr l' \<Longrightarrow> unflatten_parts q dq l = Inr l2 \<Longrightarrow> compatible p q \<Longrightarrow>
   \<exists>l3. unflatten_parts q dq l' = Inr l3"
proof (induction p arbitrary: q l l' l2)
  case Nil
  then show ?case by simp
next
  case (Cons x p)
  show ?case
  proof (cases q)
    case Nil
    then show ?thesis by simp
  next
    case (Cons y q')
    obtain L where L: "l = JObj L"
      using unflatten_parts_level [OF _ Cons.prems(1)] by auto
    obtain nx where nx: "node_after x p dp (map_of L (part_name x)) = Inr nx"
      and l': "l' = JObj (AList.update (part_name x) nx L)"
      using Cons.prems(1) L by (auto simp: unflatten_parts_node split: sum.splits)
    obtain ny where ny: "node_after y q' dq (map_of L (part_name y)) = Inr ny"
      using Cons.prems(2) L Cons by (auto simp: unflatten_parts_node split: sum.splits)
    show ?thesis
    proof (cases "part_name x = part_name y")
      case False
      then have "map_of (AList.update (part_name x) nx L) (part_name y) = map_of L (part_name y)"
        by (simp add: update_conv')
      then show ?thesis using ny l' Cons by (simp add: unflatten_parts_node)
    next
      case True
      then have sk: "same_kind x y"
        and cases: "(p = [] \<and> q' = []) \<or> (p \<noteq> [] \<and> q' \<noteq> [] \<and> compatible p q')"
        using Cons.prems(3) Cons by auto
      have look: "map_of (AList.update (part_name x) nx L) (part_name y) = Some nx"
        using True by (simp add: update_conv')
      have "\<exists>n3. node_after y q' dq (Some nx) = Inr n3"
      proof (cases x)
        case (PropertyPart n)
        then obtain m where y: "y = PropertyPart m" using sk by (cases y) auto
        show ?thesis
        proof (cases "p = []")
          case True
          then have "q' = []" using cases by simp
          then show ?thesis using y by (simp add: node_after_def)
        next
          case False
          then have q': "q' \<noteq> []" and c: "compatible p q'" using cases by auto
          define node where "node = (case map_of L n of None \<Rightarrow> object_node | Some v \<Rightarrow> v)"
          obtain sub sub' where sub: "py_getitem node ''properties'' = Inr sub"
            and s1: "unflatten_parts p dp sub = Inr sub'"
            and nx': "nx = put ''properties'' sub' node"
            using nx PropertyPart False
            by (auto simp: node_after_def node_def Let_def split: sum.splits)
          have "m = n" using True PropertyPart y by simp
          then obtain s2 where s2: "unflatten_parts q' dq sub = Inr s2"
            using ny y q' sub
            by (auto simp: node_after_def node_def Let_def split: sum.splits)
          from Cons.IH [OF s1 s2 c] obtain s3 where "unflatten_parts q' dq sub' = Inr s3" ..
          then show ?thesis using y q' nx' put_getitem [OF sub]
            by (simp add: node_after_def)
        qed
      next
        case (ArrayPart n)
        then obtain m where y: "y = ArrayPart m" using sk by (cases y) auto
        define node where "node = (case map_of L n of None \<Rightarrow> array_node | Some v \<Rightarrow> v)"
        show ?thesis
        proof (cases "p = []")
          case True
          then have "q' = []" using cases by simp
          moreover obtain d where "nx = JObj d"
            using nx ArrayPart True by (auto simp: node_after_def Let_def dest: setitem_dict)
          ultimately show ?thesis using y by (simp add: node_after_def)
        next
          case False
          then have q': "q' \<noteq> []" and c: "compatible p q'" using cases by auto
          obtain its sub sub' where its: "py_getitem node ''items'' = Inr its"
            and sub: "py_getitem its ''properties'' = Inr sub"
            and s1: "unflatten_parts p dp sub = Inr sub'"
            and nx': "nx = put ''items'' (put ''properties'' sub' its) node"
            using nx ArrayPart False
            by (auto simp: node_after_def node_def Let_def split: sum.splits)
          have "m = n" using True ArrayPart y by simp
          then obtain s2 where s2: "unflatten_parts q' dq sub = Inr s2"
            using ny y q' sub its
            by (auto simp: node_after_def node_def Let_def split: sum.splits)
          from Cons.IH [OF s1 s2 c] obtain s3 where "unflatten_parts q' dq sub' = Inr s3" ..
          then show ?thesis using y q' nx' put_getitem [OF sub] put_getitem [OF its]
            by (simp add: node_after_def)
        qed
      qed
      then show ?thesis using l' Cons look by (auto simp: unflatten_parts_node)
    qed
  qed
qed

lemma unflatten_loop_succeeds:
  "pairwise_compatible (map (\<lambda>kv. parse_flat_path (fst kv)) ps) \<Longrightarrow>
   \<forall>kv\<in>set ps. \<exists>r. unflatten_parts (parse_flat_path (fst kv)) (snd kv) l = Inr r \<Longrightarrow>
   \<exists>r. unflatten_loop ps l = Inr r"
proof (induction ps arbitrary: l)
  case Nil
  then show ?case by simp
next
  case (Cons a ps)
  obtain k v where a: "a = (k, v)" by (cases a)
  obtain l' where l': "unflatten_parts (parse_flat_path k) v l = Inr l'"
    using Cons.prems(2) a by auto
  have "\<forall>kv\<in>set ps. \<exists>r. unflatten_parts (parse_flat_path (fst kv)) (snd kv) l' = Inr r"
  proof
    fix kv assume kv: "kv \<in> set ps"
    then obtain r where r: "unflatten_parts (parse_flat_path (fst kv)) (snd kv) l = Inr r"
      using Cons.prems(2) by auto
    have "compatible (parse_flat_path k) (parse_flat_path (fst kv))"
      using Cons.prems(1) a kv by (auto simp: list_all_iff)
    from step_preserves [OF l' r this]
    show "\<exists>r. unflatten_parts (parse_flat_path (fst kv)) (snd kv) l' = Inr r" .
  qed
  moreover have "pairwise_compatible (map (\<lambda>kv. parse_flat_path (fst kv)) ps)"
    using Cons.prems(1) by simp
  ultimately obtain r where "unflatten_loop ps l' = Inr r" using Cons.IH by blast
  then show ?case using a l' by (simp add: unflatten_property_def)
qed

text \<open>
  Claim C2, as amended. \<^verbatim>\<open>unflatten_schema\<close> returns a document, for every path index, on
  every flat document that has no \<^verbatim>\<open>properties\<close> or whose \<^verbatim>\<open>properties\<close> is a mapping with
  pairwise compatible flat paths: no path ends at a name below which another path continues,
  and no name is used both as a plain property and as an array segment under the same parent.
\<close>

theorem unflatten_total_on_compatible_paths:
  assumes "map_of F ''properties'' = None
           \<or> (\<exists>ps. map_of F ''properties'' = Some (JObj ps)
                    \<and> pairwise_compatible (map (\<lambda>kv. parse_flat_path (fst kv)) ps))"
  shows "\<exists>R. unflatten_schema F m = Inr R"
proof (cases "m = []")
  case True
  then show ?thesis by (simp add: unflatten_schema_def)
next
  case False
  from assms show ?thesis
  proof
    assume "map_of F ''properties'' = None"
    then show ?thesis using False by (simp add: unflatten_schema_def dict_get_or_def)
  next
    assume "\<exists>ps. map_of F ''properties'' = Some (JObj ps)
                  \<and> pairwise_compatible (map (\<lambda>kv. parse_flat_path (fst kv)) ps)"
    then obtain ps where ps: "map_of F ''properties'' = Some (JObj ps)"
      and pc: "pairwise_compatible (map (\<lambda>kv. parse_flat_path (fst kv)) ps)" by blast
    have "\<exists>r. unflatten_loop ps (JObj []) = Inr r"
      using unflatten_loop_succeeds [OF pc] unflatten_empty_level by blast
    then show ?thesis using False ps
      by (auto simp: unflatten_schema_def dict_get_or_def)
  qed
qed

theorem unflatten_total_on_compatible_paths_witness:
  "map_of compatible_doc ''properties'' = Some (JObj compatible_properties)
   \<and> pairwise_compatible (map (\<lambda>kv. parse_flat_path (fst kv)) compatible_properties)
   \<and> (\<exists>R. unflatten_schema compatible_doc [(''g'', ''g'')] = Inr R)"
proof -
  have m: "map_of compatible_doc ''properties'' = Some (JObj compatible_properties)"
    by (simp add: compatible_doc_def)
  have c: "pairwise_compatible (map (\<lambda>kv. parse_flat_path (fst kv)) compatible_properties)"
    by code_simp
  have "map_of compatible_doc ''properties'' = None
        \<or> (\<exists>ps. map_of compatible_doc ''properties'' = Some (JObj ps)
                 \<and> pairwise_compatible (map (\<lambda>kv. parse_flat_path (fst kv)) ps))"
    using m c by blast
  from unflatten_total_on_compatible_paths [OF this, of "[(''g'', ''g'')]"] m c
  show ?thesis by blast
qed

text \<open>
  The claim as stated fails: with the flat paths \<open>a\<close> and \<open>a.b\<close> (one a proper prefix of the
  other), and with \<open>a.b\<close> and \<open>a[*].c\<close> (the name \<open>a\<close> both a plain property and an array
  segment), the walk subscripts a node that lacks the key it expects, and KeyError propagates.
\<close>

theorem unflatten_raises_counterexample:
  "unflatten_schema prefix_doc [(''a'', ''a'')] = Inl KeyError
   \<and> unflatten_schema mixed_doc [(''a'', ''a'')] = Inl KeyError"
  by code_simp

subsection \<open>The index of a nested document\<close>

text \<open>
  Claim C3 fails on the code. A document whose only property is an object with an empty
  \<^verbatim>\<open>properties\<close> mapping is nested, and \<^verbatim>\<open>flatten_schema\<close> transforms it (the property is
  gone from the flat document), yet the index it returns is empty.
\<close>

theorem nested_document_with_empty_index:
  "is_nested_schema empty_object_doc = Inr True
   \<and> flatten_schema 10 empty_object_doc = Inr ([(''properties'', JObj [])], [])"
  by code_simp

subsection \<open>The walk and the reconstruction on trees\<close>

lemma split_dot_nodot: "CHR ''.'' \<notin> set s \<Longrightarrow> split_dot s = [s]"
  by (induction s) auto

lemma split_dot_append:
  "CHR ''.'' \<notin> set s \<Longrightarrow> split_dot (s @ CHR ''.'' # t) = s # split_dot t"
  by (induction s) auto

lemma str_contains_append: "str_contains sub (a @ sub)"
proof (induction a)
  case Nil
  then show ?case by (cases sub) (auto simp: startswith_def)
next
  case (Cons c a)
  then show ?case by simp
qed

lemma startswith_wild_append:
  "\<not> startswith ''[*]'' (c # n) \<Longrightarrow> \<not> startswith ''[*]'' ((c # n) @ ''[*]'')"
proof (cases n)
  case Nil
  then show ?thesis by (simp add: startswith_def)
next
  case (Cons c2 n2)
  then show "\<not> startswith ''[*]'' (c # n) \<Longrightarrow> ?thesis"
    by (cases n2) (auto simp: startswith_def)
qed

lemma str_replace_wild:
  "\<not> str_contains ''[*]'' n \<Longrightarrow> str_replace ''[*]'' [] (n @ ''[*]'') = n"
proof (induction n)
  case Nil
  then show ?case by (simp add: startswith_def)
next
  case (Cons c n)
  then have "\<not> startswith ''[*]'' ((c # n) @ ''[*]'')"
    using startswith_wild_append by simp
  then show ?case using Cons by simp
qed

lemma parse_segment_segment:
  "name_ok (part_name x) \<Longrightarrow> parse_segment (segment x) = x"
  by (cases x) (auto simp: parse_segment_def name_ok_def str_contains_append str_replace_wild)

lemma segment_nodot: "name_ok (part_name x) \<Longrightarrow> CHR ''.'' \<notin> set (segment x)"
  by (cases x) (auto simp: name_ok_def)



lemma parse_render:
  "ps \<noteq> [] \<Longrightarrow> \<forall>x\<in>set ps. name_ok (part_name x) \<Longrightarrow> parse_flat_path (render ps) = ps"
proof (induction ps rule: render.induct)
  case 1
  then show ?case by simp
next
  case (2 x)
  then show ?case
    by (simp add: parse_flat_path_def split_dot_nodot segment_nodot parse_segment_segment)
next
  case (3 x y r)
  then have "parse_flat_path (render (y # r)) = y # r" by simp
  then show ?case using 3
    by (simp add: parse_flat_path_def split_dot_append segment_nodot parse_segment_segment)
qed

lemma render_snoc:
  "render (ps @ [x]) = (if ps = [] then segment x else render ps @ ''.'' @ segment x)"
  by (induction ps rule: render.induct) auto

lemma render_nonempty:
  "ps \<noteq> [] \<Longrightarrow> \<forall>x\<in>set ps. segment x \<noteq> [] \<Longrightarrow> render ps \<noteq> []"
proof (cases ps)
  case Nil
  then show "ps \<noteq> [] \<Longrightarrow> ?thesis" by simp
next
  case (Cons x r)
  assume g: "\<forall>x\<in>set ps. segment x \<noteq> []"
  then have sx: "segment x \<noteq> []" using Cons by simp
  show ?thesis
  proof (cases r)
    case Nil
    have "render [x] = segment x" by simp
    then show ?thesis using sx Cons Nil by metis
  next
    case (Cons y r')
    have "render (x # y # r') = segment x @ ''.'' @ render (y # r')" by simp
    then show ?thesis using sx \<open>ps = x # r\<close> Cons
      by (metis append_is_Nil_conv)
  qed
qed

lemma render_inj:
  assumes "ps \<noteq> []" "qs \<noteq> []" "\<forall>x\<in>set ps. name_ok (part_name x)"
    "\<forall>x\<in>set qs. name_ok (part_name x)" "render ps = render qs"
  shows "ps = qs"
  using parse_render [OF assms(1,3)] parse_render [OF assms(2,4)] assms(5) by metis

lemma unflatten_paths_append:
  "unflatten_paths (xs @ ys) l
     = (case unflatten_paths xs l of Inl e \<Rightarrow> Inl e | Inr l' \<Rightarrow> unflatten_paths ys l')"
  by (induction xs l rule: unflatten_paths.induct) (auto split: sum.splits)

lemma unflatten_paths_dict:
  "unflatten_paths xs (JObj L) = Inr r \<Longrightarrow> \<exists>L'. r = JObj L'"
proof (induction xs arbitrary: L)
  case Nil
  then show ?case by auto
next
  case (Cons a xs)
  obtain p d where a: "a = (p, d)" by (cases a)
  then obtain l1 where l1: "unflatten_parts p d (JObj L) = Inr l1"
    and rest: "unflatten_paths xs l1 = Inr r"
    using Cons.prems by (auto split: sum.splits)
  obtain L1 where "l1 = JObj L1" using unflatten_parts_result [OF l1] ..
  then show ?case using Cons.IH rest by blast
qed

lemma unflatten_loop_render:
  "\<forall>pl\<in>set xs. fst pl \<noteq> [] \<and> (\<forall>x\<in>set (fst pl). name_ok (part_name x)) \<Longrightarrow>
   unflatten_loop (map (\<lambda>pl. (render (fst pl), snd pl)) xs) l = unflatten_paths xs l"
proof (induction xs arbitrary: l)
  case Nil
  then show ?case by simp
next
  case (Cons a xs)
  obtain p d where a: "a = (p, d)" by (cases a)
  have "parse_flat_path (render p) = p" using Cons.prems a by (simp add: parse_render)
  then show ?case using Cons a by (auto simp: unflatten_property_def split: sum.splits)
qed

lemma update_append_absent:
  "k \<notin> fst ` set al \<Longrightarrow> AList.update k v (al @ [(k, w)]) = al @ [(k, v)]"
  by (induction al) auto

lemma under_object_present:
  "\<forall>pl\<in>set xs. fst pl \<noteq> [] \<Longrightarrow>
   map_of L n = Some (JObj [(''type'', JStr ''object''), (''properties'', JObj sub)]) \<Longrightarrow>
   unflatten_paths xs (JObj sub) = Inr (JObj sub') \<Longrightarrow>
   unflatten_paths (map (\<lambda>pl. (PropertyPart n # fst pl, snd pl)) xs) (JObj L)
     = Inr (JObj (AList.update n
                    (JObj [(''type'', JStr ''object''), (''properties'', JObj sub')]) L))"
proof (induction xs arbitrary: L sub)
  case Nil
  then show ?case by (simp add: update_triv)
next
  case (Cons a xs)
  obtain p d where a: "a = (p, d)" by (cases a)
  have p: "p \<noteq> []" using Cons.prems(1) a by simp
  obtain l1 where l1: "unflatten_parts p d (JObj sub) = Inr l1"
    and rest: "unflatten_paths xs l1 = Inr (JObj sub')"
    using Cons.prems(3) a by (auto split: sum.splits)
  obtain sub1 where s1: "l1 = JObj sub1" using unflatten_parts_result [OF l1] ..
  define node1 where "node1 = JObj [(''type'', JStr ''object''), (''properties'', JObj sub1)]"
  define L1 where "L1 = AList.update n node1 L"
  have step: "unflatten_parts (PropertyPart n # p) d (JObj L) = Inr (JObj L1)"
    using Cons.prems(2) p l1 s1
    by (simp add: unflatten_parts_node node_after_def L1_def node1_def)
  have look: "map_of L1 n = Some (JObj [(''type'', JStr ''object''), (''properties'', JObj sub1)])"
    by (simp add: L1_def node1_def update_conv')
  have "unflatten_paths (map (\<lambda>pl. (PropertyPart n # fst pl, snd pl)) xs) (JObj L1)
          = Inr (JObj (AList.update n
                    (JObj [(''type'', JStr ''object''), (''properties'', JObj sub')]) L1))"
    using Cons.IH [OF _ look] Cons.prems(1) rest s1 by simp
  then show ?case using step a by (simp add: L1_def)
qed

lemma under_object:
  assumes "xs \<noteq> []" "\<forall>pl\<in>set xs. fst pl \<noteq> []" "n \<notin> fst ` set L"
    and "unflatten_paths xs (JObj []) = Inr (JObj sub')"
  shows "unflatten_paths (map (\<lambda>pl. (PropertyPart n # fst pl, snd pl)) xs) (JObj L)
           = Inr (JObj (L @ [(n, JObj [(''type'', JStr ''object''), (''properties'', JObj sub')])]))"
proof -
  obtain p d xs' where xs: "xs = (p, d) # xs'" using assms(1) by (cases xs) auto
  have p: "p \<noteq> []" using assms(2) xs by simp
  obtain l1 where l1: "unflatten_parts p d (JObj []) = Inr l1"
    and rest: "unflatten_paths xs' l1 = Inr (JObj sub')"
    using assms(4) xs by (auto split: sum.splits)
  obtain sub1 where s1: "l1 = JObj sub1" using unflatten_parts_result [OF l1] ..
  define node1 where "node1 = JObj [(''type'', JStr ''object''), (''properties'', JObj sub1)]"
  have none: "map_of L n = None" using assms(3) by (simp add: map_of_eq_None_iff)
  have step: "unflatten_parts (PropertyPart n # p) d (JObj L) = Inr (JObj (L @ [(n, node1)]))"
    using none p l1 s1 assms(3)
    by (simp add: unflatten_parts_node node_after_def node1_def object_node_def update_absent)
  have look: "map_of (L @ [(n, node1)]) n
                = Some (JObj [(''type'', JStr ''object''), (''properties'', JObj sub1)])"
    using none by (simp add: node1_def map_add_def)
  have "unflatten_paths (map (\<lambda>pl. (PropertyPart n # fst pl, snd pl)) xs') (JObj (L @ [(n, node1)]))
          = Inr (JObj (AList.update n
                    (JObj [(''type'', JStr ''object''), (''properties'', JObj sub')])
                    (L @ [(n, node1)])))"
    using under_object_present [OF _ look] assms(2) xs rest s1 by simp
  then show ?thesis using step xs assms(3) by (simp add: update_append_absent)
qed

lemma under_array_present:
  "\<forall>pl\<in>set xs. fst pl \<noteq> [] \<Longrightarrow>
   map_of L n = Some (JObj [(''type'', JStr ''array''),
                            (''items'', JObj [(''type'', JStr ''object''),
                                              (''properties'', JObj sub)])]) \<Longrightarrow>
   unflatten_paths xs (JObj sub) = Inr (JObj sub') \<Longrightarrow>
   unflatten_paths (map (\<lambda>pl. (ArrayPart n # fst pl, snd pl)) xs) (JObj L)
     = Inr (JObj (AList.update n
                    (JObj [(''type'', JStr ''array''),
                           (''items'', JObj [(''type'', JStr ''object''),
                                             (''properties'', JObj sub')])]) L))"
proof (induction xs arbitrary: L sub)
  case Nil
  then show ?case by (simp add: update_triv)
next
  case (Cons a xs)
  obtain p d where a: "a = (p, d)" by (cases a)
  have p: "p \<noteq> []" using Cons.prems(1) a by simp
  obtain l1 where l1: "unflatten_parts p d (JObj sub) = Inr l1"
    and rest: "unflatten_paths xs l1 = Inr (JObj sub')"
    using Cons.prems(3) a by (auto split: sum.splits)
  obtain sub1 where s1: "l1 = JObj sub1" using unflatten_parts_result [OF l1] ..
  define node1 where
    "node1 = JObj [(''type'', JStr ''array''),
                   (''items'', JObj [(''type'', JStr ''object''), (''properties'', JObj sub1)])]"
  define L1 where "L1 = AList.update n node1 L"
  have step: "unflatten_parts (ArrayPart n # p) d (JObj L) = Inr (JObj L1)"
    using Cons.prems(2) p l1 s1
    by (simp add: unflatten_parts_node node_after_def L1_def node1_def)
  have look: "map_of L1 n
                = Some (JObj [(''type'', JStr ''array''),
                              (''items'', JObj [(''type'', JStr ''object''),
                                                (''properties'', JObj sub1)])])"
    by (simp add: L1_def node1_def update_conv')
  have "unflatten_paths (map (\<lambda>pl. (ArrayPart n # fst pl, snd pl)) xs) (JObj L1)
          = Inr (JObj (AList.update n
                    (JObj [(''type'', JStr ''array''),
                           (''items'', JObj [(''type'', JStr ''object''),
                                             (''properties'', JObj sub')])]) L1))"
    using Cons.IH [OF _ look] Cons.prems(1) rest s1 by simp
  then show ?case using step a by (simp add: L1_def)
qed

lemma under_array:
  assumes "xs \<noteq> []" "\<forall>pl\<in>set xs. fst pl \<noteq> []" "n \<notin> fst ` set L"
    and "unflatten_paths xs (JObj []) = Inr (JObj sub')"
  shows "unflatten_paths (map (\<lambda>pl. (ArrayPart n # fst pl, snd pl)) xs) (JObj L)
           = Inr (JObj (L @ [(n, JObj [(''type'', JStr ''array''),
                                       (''items'', JObj [(''type'', JStr ''object''),
                                                         (''properties'', JObj sub')])])]))"
proof -
  obtain p d xs' where xs: "xs = (p, d) # xs'" using assms(1) by (cases xs) auto
  have p: "p \<noteq> []" using assms(2) xs by simp
  obtain l1 where l1: "unflatten_parts p d (JObj []) = Inr l1"
    and rest: "unflatten_paths xs' l1 = Inr (JObj sub')"
    using assms(4) xs by (auto split: sum.splits)
  obtain sub1 where s1: "l1 = JObj sub1" using unflatten_parts_result [OF l1] ..
  define node1 where
    "node1 = JObj [(''type'', JStr ''array''),
                   (''items'', JObj [(''type'', JStr ''object''), (''properties'', JObj sub1)])]"
  have none: "map_of L n = None" using assms(3) by (simp add: map_of_eq_None_iff)
  have step: "unflatten_parts (ArrayPart n # p) d (JObj L) = Inr (JObj (L @ [(n, node1)]))"
    using none p l1 s1 assms(3)
    by (simp add: unflatten_parts_node node_after_def node1_def array_node_def update_absent)
  have look: "map_of (L @ [(n, node1)]) n
                = Some (JObj [(''type'', JStr ''array''),
                              (''items'', JObj [(''type'', JStr ''object''),
                                                (''properties'', JObj sub1)])])"
    using none by (simp add: node1_def map_add_def)
  have "unflatten_paths (map (\<lambda>pl. (ArrayPart n # fst pl, snd pl)) xs') (JObj (L @ [(n, node1)]))
          = Inr (JObj (AList.update n
                    (JObj [(''type'', JStr ''array''),
                           (''items'', JObj [(''type'', JStr ''object''),
                                             (''properties'', JObj sub')])])
                    (L @ [(n, node1)])))"
    using under_array_present [OF _ look] assms(2) xs rest s1 by simp
  then show ?thesis using step xs assms(3) by (simp add: update_append_absent)
qed

lemma leaves_nonempty_paths:
  "\<forall>pl\<in>set (tree_leaves n t). fst pl \<noteq> []"
  "\<forall>pl\<in>set (props_leaves cs). fst pl \<noteq> []"
  by (induction n t and cs rule: tree_leaves_props_leaves.induct) auto

lemma leaves_exist:
  "wf_tree t \<Longrightarrow> tree_leaves n t \<noteq> []"
  "wf_props cs \<Longrightarrow> cs \<noteq> [] \<Longrightarrow> props_leaves cs \<noteq> []"
  by (induction n t and cs rule: tree_leaves_props_leaves.induct) auto

lemma unflatten_tree:
  "wf_tree t \<Longrightarrow> n \<notin> fst ` set L \<Longrightarrow>
     unflatten_paths (tree_leaves n t) (JObj L) = Inr (JObj (L @ [(n, canon t)]))"
  "wf_props cs \<Longrightarrow> fst ` set cs \<inter> fst ` set L = {} \<Longrightarrow>
     unflatten_paths (props_leaves cs) (JObj L) = Inr (JObj (L @ canon_props cs))"
proof (induction n t and cs arbitrary: L and L rule: tree_leaves_props_leaves.induct)
  case (1 n l)
  then show ?case by (simp add: update_absent)
next
  case (2 n cs)
  have sub: "unflatten_paths (props_leaves cs) (JObj []) = Inr (JObj (canon_props cs))"
    using "2.IH" [of "[]"] "2.prems" by simp
  have ne: "props_leaves cs \<noteq> []" using leaves_exist(2) "2.prems" by simp
  show ?case
    using under_object [OF ne leaves_nonempty_paths(2) "2.prems"(2) sub] by simp
next
  case (3 n cs)
  have sub: "unflatten_paths (props_leaves cs) (JObj []) = Inr (JObj (canon_props cs))"
    using "3.IH" [of "[]"] "3.prems" by simp
  have ne: "props_leaves cs \<noteq> []" using leaves_exist(2) "3.prems" by simp
  show ?case
    using under_array [OF ne leaves_nonempty_paths(2) "3.prems"(2) sub] by simp
next
  case 4
  then show ?case by simp
next
  case (5 k t cs)
  have k: "k \<notin> fst ` set L" using "5.prems"(2) by auto
  have first: "unflatten_paths (tree_leaves k t) (JObj L) = Inr (JObj (L @ [(k, canon t)]))"
    using "5.IH"(1) [OF _ k] "5.prems"(1) by simp
  have "fst ` set cs \<inter> fst ` set (L @ [(k, canon t)]) = {}"
    using "5.prems" by auto
  then have "unflatten_paths (props_leaves cs) (JObj (L @ [(k, canon t)]))
               = Inr (JObj ((L @ [(k, canon t)]) @ canon_props cs))"
    using "5.IH"(2) "5.prems"(1) by simp
  then show ?case using first by (simp add: unflatten_paths_append)
qed

lemma record_all_append: "record_all (xs @ ys) st = record_all ys (record_all xs st)"
  by (simp add: record_all_def)

lemma rendered_append: "rendered pre (xs @ ys) = rendered pre xs @ rendered pre ys"
  by (simp add: rendered_def)

lemma rendered_cons:
  "rendered pre (map (\<lambda>pl. (x # fst pl, snd pl)) xs) = rendered (pre @ [x]) xs"
  by (simp add: rendered_def comp_def)

lemma current_path_property:
  "pre = [] \<or> render pre \<noteq> [] \<Longrightarrow>
   (if render pre \<noteq> [] then render pre @ ''.'' @ n else n) = render (pre @ [PropertyPart n])"
  by (cases "pre = []") (auto simp: render_snoc)

lemma current_path_array:
  "pre = [] \<or> render pre \<noteq> [] \<Longrightarrow>
   (if render pre \<noteq> [] then render pre @ ''.'' @ n else n) @ ''[*]''
     = render (pre @ [ArrayPart n])"
  by (cases "pre = []") (auto simp: render_snoc)

lemma prefix_property:
  "pre = [] \<or> render pre \<noteq> [] \<Longrightarrow> pre = [] \<longrightarrow> n \<noteq> [] \<Longrightarrow>
   pre @ [PropertyPart n] = [] \<or> render (pre @ [PropertyPart n]) \<noteq> []"
  by (cases "pre = []") (auto simp: render_snoc)

lemma prefix_array:
  "pre = [] \<or> render pre \<noteq> [] \<Longrightarrow>
   pre @ [ArrayPart n] = [] \<or> render (pre @ [ArrayPart n]) \<noteq> []"
  by (cases "pre = []") (auto simp: render_snoc)



lemma object_propertiesD:
  "object_properties strict j = Some qs \<Longrightarrow>
   \<exists>pd. j = JObj pd \<and> is_object_node strict pd \<and> map_of pd ''properties'' = Some (JObj qs)"
  by (cases j) (auto simp: object_properties_def split: if_splits option.splits json.splits)

lemma array_item_propertiesD:
  "array_item_properties strict j = Some qs \<Longrightarrow>
   \<exists>pd it. j = JObj pd \<and> is_array_node strict pd \<and> map_of pd ''items'' = Some (JObj it)
      \<and> is_object_node strict it \<and> map_of it ''properties'' = Some (JObj qs)"
  by (cases j)
     (auto simp: array_item_properties_def split: if_splits option.splits dest: object_propertiesD)

lemma dispatch_object_node:
  assumes "is_object_node strict pd" "map_of pd ''properties'' = Some (JObj qs)"
  shows "flatten_dispatch defs cp pd = Recurse (JObj qs) cp"
proof -
  have nr: "\<not> dict_in ''$ref'' pd" and ty: "map_of pd ''type'' = Some (JStr ''object'')"
    using assms(1) by (simp_all add: is_object_node_def)
  show ?thesis
    using nr ty assms(2) by (simp add: flatten_dispatch_def dict_get_or_def dict_in_def)
qed

lemma dispatch_array_node:
  assumes "is_array_node strict pd" "map_of pd ''items'' = Some (JObj it)"
    "is_object_node strict it" "map_of it ''properties'' = Some (JObj qs)"
  shows "flatten_dispatch defs cp pd = Recurse (JObj qs) (cp @ ''[*]'')"
proof -
  have nr: "\<not> dict_in ''$ref'' pd" and ty: "map_of pd ''type'' = Some (JStr ''array'')"
    using assms(1) by (simp_all add: is_array_node_def)
  have ity: "map_of it ''type'' = Some (JStr ''object'')"
    using assms(3) by (simp add: is_object_node_def)
  show ?thesis
    using nr ty ity assms(2,4) by (simp add: flatten_dispatch_def dict_get_or_def dict_in_def)
qed

text \<open>Whether a property is recorded as a leaf does not depend on the path it is reached by.\<close>

lemma dispatch_terminal_any:
  "flatten_dispatch defs p pd = Terminal \<Longrightarrow> flatten_dispatch defs q pd = Terminal"
  by (auto simp: flatten_dispatch_def Let_def
           split: if_splits option.splits json.splits sum.splits bool.splits)

lemma flatten_tree:
  "walkable defs t \<Longrightarrow> (is_object_tree t \<and> pre = [] \<longrightarrow> n \<noteq> []) \<Longrightarrow> shape strict t j \<Longrightarrow>
   tree_depth t \<le> d \<Longrightarrow> pre = [] \<or> render pre \<noteq> [] \<Longrightarrow>
     flatten_items d defs ((n, j) # rest) (render pre) st
       = flatten_items d defs rest (render pre) (record_all (rendered pre (tree_leaves n t)) st)"
  "walkable_props defs cs \<Longrightarrow> (pre = [] \<longrightarrow> top_objects_named cs) \<Longrightarrow> shapes strict cs qs \<Longrightarrow>
   props_depth cs \<le> d \<Longrightarrow> pre = [] \<or> render pre \<noteq> [] \<Longrightarrow>
     flatten_items d defs qs (render pre) st
       = Inr (record_all (rendered pre (props_leaves cs)) st)"
proof (induction n t and cs arbitrary: j d pre rest st and qs d pre st
       rule: tree_leaves_props_leaves.induct)
  case (1 n l)
  then obtain pd where pd: "l = JObj pd" and t0: "flatten_dispatch defs [] pd = Terminal"
    by (cases l) auto
  have t: "flatten_dispatch defs (render (pre @ [PropertyPart n])) pd = Terminal"
    by (rule dispatch_terminal_any [OF t0])
  show ?case
    using "1.prems"(3) pd t current_path_property [OF "1.prems"(5), of n]
    by (simp add: record_all_def rendered_def Let_def)
next
  case (2 n cs)
  obtain qs where qs: "object_properties strict j = Some qs" "shapes strict cs qs"
    using "2.prems"(3) by (auto split: option.splits)
  obtain pd where pd: "j = JObj pd" "is_object_node strict pd"
    "map_of pd ''properties'' = Some (JObj qs)"
    using object_propertiesD [OF qs(1)] by blast
  obtain d' where d': "d = Suc d'" "props_depth cs \<le> d'"
    using "2.prems"(4) by (cases d) auto
  have g: "pre @ [PropertyPart n] = [] \<or> render (pre @ [PropertyPart n]) \<noteq> []"
    using "2.prems"(2) by (intro prefix_property [OF "2.prems"(5)]) simp
  have top: "pre @ [PropertyPart n] = [] \<longrightarrow> top_objects_named cs" by simp
  have wk: "walkable_props defs cs" using "2.prems"(1) by simp
  have inner: "flatten_items d' defs qs (render (pre @ [PropertyPart n])) st
                 = Inr (record_all (rendered (pre @ [PropertyPart n]) (props_leaves cs)) st)"
    by (rule "2.IH" [OF wk top qs(2) d'(2) g])
  have disp: "flatten_dispatch defs (render (pre @ [PropertyPart n])) pd
                = Recurse (JObj qs) (render (pre @ [PropertyPart n]))"
    by (rule dispatch_object_node [OF pd(2,3)])
  show ?case
    using pd(1) d'(1) disp inner current_path_property [OF "2.prems"(5), of n]
    by (simp add: Let_def rendered_cons)
next
  case (3 n cs)
  obtain qs where qs: "array_item_properties strict j = Some qs" "shapes strict cs qs"
    using "3.prems"(3) by (auto split: option.splits)
  obtain pd it where pd: "j = JObj pd" "is_array_node strict pd"
    "map_of pd ''items'' = Some (JObj it)"
    "is_object_node strict it" "map_of it ''properties'' = Some (JObj qs)"
    using array_item_propertiesD [OF qs(1)] by blast
  obtain d' where d': "d = Suc d'" "props_depth cs \<le> d'"
    using "3.prems"(4) by (cases d) auto
  have g: "pre @ [ArrayPart n] = [] \<or> render (pre @ [ArrayPart n]) \<noteq> []"
    by (rule prefix_array [OF "3.prems"(5)])
  have top: "pre @ [ArrayPart n] = [] \<longrightarrow> top_objects_named cs" by simp
  have wk: "walkable_props defs cs" using "3.prems"(1) by simp
  have inner: "flatten_items d' defs qs (render (pre @ [ArrayPart n])) st
                 = Inr (record_all (rendered (pre @ [ArrayPart n]) (props_leaves cs)) st)"
    by (rule "3.IH" [OF wk top qs(2) d'(2) g])
  have disp: "flatten_dispatch defs (render (pre @ [PropertyPart n])) pd
                = Recurse (JObj qs) (render (pre @ [PropertyPart n]) @ ''[*]'')"
    by (rule dispatch_array_node [OF pd(2,3,4,5)])
  have "render (pre @ [PropertyPart n]) @ ''[*]'' = render (pre @ [ArrayPart n])"
    using current_path_property [OF "3.prems"(5), of n] current_path_array [OF "3.prems"(5), of n]
    by simp
  then show ?case
    using pd(1) d'(1) disp inner current_path_property [OF "3.prems"(5), of n]
    by (simp add: Let_def rendered_cons)
next
  case 4
  then show ?case by (simp add: record_all_def rendered_def)
next
  case (5 k t cs)
  obtain j qs' where qs: "qs = (k, j) # qs'" "shape strict t j" "shapes strict cs qs'"
    using "5.prems"(3) by (auto split: list.splits)
  have wt: "walkable defs t" and wc: "walkable_props defs cs"
    using "5.prems"(1) by simp_all
  have gk: "is_object_tree t \<and> pre = [] \<longrightarrow> k \<noteq> []"
    and gc: "pre = [] \<longrightarrow> top_objects_named cs"
    using "5.prems"(2) by (auto simp: top_objects_named_def)
  have dt: "tree_depth t \<le> d" and dc: "props_depth cs \<le> d"
    using "5.prems"(4) by simp_all
  have "flatten_items d defs qs (render pre) st
          = flatten_items d defs qs' (render pre) (record_all (rendered pre (tree_leaves k t)) st)"
    using "5.IH"(1) [OF wt gk qs(2) dt "5.prems"(5)] qs(1) by simp
  also have "\<dots> = Inr (record_all (rendered pre (props_leaves cs))
                        (record_all (rendered pre (tree_leaves k t)) st))"
    by (rule "5.IH"(2) [OF wc gc qs(3) dc "5.prems"(5)])
  finally show ?case by (simp add: rendered_append record_all_append)
qed

text \<open>
  The whole of \<^verbatim>\<open>flatten_schema\<close> on a document whose properties have the shape of a walkable
  tree with named objects at the top level: the walk records every leaf of the tree, in order, under its rendered path.
\<close>

lemma flatten_schema_tree:
  assumes D: "map_of D ''properties'' = Some (JObj qs)"
    and sh: "shapes strict ps qs"
    and wk: "walkable_props (dict_get_or D ''definitions'' (JObj [])) ps"
    and top: "top_objects_named ps"
    and dp: "props_depth ps < limit"
  shows "flatten_schema limit D
           = Inr (if has_nested_loop qs
                  then (AList.update ''properties''
                          (JObj (fst (record_all (rendered [] (props_leaves ps)) ([], [])))) D,
                        snd (record_all (rendered [] (props_leaves ps)) ([], [])))
                  else (D, []))"
proof (cases "has_nested_loop qs")
  case False
  then show ?thesis using D by (simp add: flatten_schema_def is_nested_schema_def)
next
  case True
  obtain d where d: "limit = Suc d" "props_depth ps \<le> d" using dp by (cases limit) auto
  have nested: "is_nested_schema D = Inr True"
    using D True by (simp add: is_nested_schema_def)
  have "flatten_items d (dict_get_or D ''definitions'' (JObj [])) qs (render []) ([], [])
          = Inr (record_all (rendered [] (props_leaves ps)) ([], []))"
    using top by (intro flatten_tree(2) [OF wk _ sh d(2)]) simp_all
  then have walk:
    "flatten_properties limit (dict_get_or D ''definitions'' (JObj [])) (JObj qs) [] ([], [])
       = Inr (record_all (rendered [] (props_leaves ps)) ([], []))"
    using d(1) by simp
  show ?thesis
    using nested D walk True by (simp add: flatten_schema_def split: prod.splits)
qed

lemma leaves_good:
  "wf_tree t \<Longrightarrow> name_ok n \<Longrightarrow>
     \<forall>pl\<in>set (tree_leaves n t). \<forall>x\<in>set (fst pl). name_ok (part_name x)"
  "wf_props cs \<Longrightarrow> \<forall>pl\<in>set (props_leaves cs). \<forall>x\<in>set (fst pl). name_ok (part_name x)"
  by (induction n t and cs rule: tree_leaves_props_leaves.induct) auto

lemma leaves_head:
  "\<forall>pl\<in>set (tree_leaves n t). part_name (hd (fst pl)) = n"
  "\<forall>pl\<in>set (props_leaves cs). part_name (hd (fst pl)) \<in> fst ` set cs"
  by (induction n t and cs rule: tree_leaves_props_leaves.induct) auto

lemma distinct_mapI: "distinct ys \<Longrightarrow> inj_on f (set ys) \<Longrightarrow> distinct (map f ys)"
  by (simp add: distinct_map)

lemma leaves_distinct:
  "wf_tree t \<Longrightarrow> distinct (map fst (tree_leaves n t))"
  "wf_props cs \<Longrightarrow> distinct (map fst (props_leaves cs))"
proof (induction n t and cs rule: tree_leaves_props_leaves.induct)
  case (1 n l)
  then show ?case by simp
next
  case (2 n cs)
  then have "distinct (map fst (props_leaves cs))" by simp
  then have "distinct (map ((#) (PropertyPart n)) (map fst (props_leaves cs)))"
    by (rule distinct_mapI) simp
  then show ?case by (simp add: comp_def)
next
  case (3 n cs)
  then have "distinct (map fst (props_leaves cs))" by simp
  then have "distinct (map ((#) (ArrayPart n)) (map fst (props_leaves cs)))"
    by (rule distinct_mapI) simp
  then show ?case by (simp add: comp_def)
next
  case 4
  then show ?case by simp
next
  case (5 k t cs)
  have "fst ` set (tree_leaves k t) \<inter> fst ` set (props_leaves cs) = {}"
  proof (rule ccontr)
    assume "fst ` set (tree_leaves k t) \<inter> fst ` set (props_leaves cs) \<noteq> {}"
    then obtain a b where a: "a \<in> set (tree_leaves k t)" and b: "b \<in> set (props_leaves cs)"
      and e: "fst a = fst b" by auto
    have "part_name (hd (fst a)) = k" using leaves_head(1) a by blast
    moreover have "part_name (hd (fst b)) \<in> fst ` set cs" using leaves_head(2) b by blast
    ultimately show False using e "5.prems" by simp
  qed
  then show ?case using 5 by simp
qed

lemma rendered_distinct:
  assumes "wf_props cs"
  shows "distinct (map fst (rendered [] (props_leaves cs)))"
proof -
  have "inj_on render (set (map fst (props_leaves cs)))"
  proof (rule inj_onI)
    fix p q
    assume p: "p \<in> set (map fst (props_leaves cs))" and q: "q \<in> set (map fst (props_leaves cs))"
      and e: "render p = render q"
    have "p \<noteq> []" "q \<noteq> []" using p q leaves_nonempty_paths(2) [of cs] by auto
    moreover have "\<forall>x\<in>set p. name_ok (part_name x)" "\<forall>x\<in>set q. name_ok (part_name x)"
      using p q leaves_good(2) [OF assms] by auto
    ultimately show "p = q" using e by (rule render_inj)
  qed
  from leaves_distinct(2) [OF assms] this
  have "distinct (map render (map fst (props_leaves cs)))"
    by (rule distinct_mapI)
  then show ?thesis by (simp add: rendered_def comp_def)
qed

lemma record_all_fresh:
  "distinct (map fst xs) \<Longrightarrow> fst ` set xs \<inter> fst ` set (fst st) = {} \<Longrightarrow>
   fst ` set xs \<inter> fst ` set (snd st) = {} \<Longrightarrow>
   record_all xs st = (fst st @ xs, snd st @ map (\<lambda>kv. (fst kv, fst kv)) xs)"
proof (induction xs arbitrary: st)
  case Nil
  then show ?case by (simp add: record_all_def)
next
  case (Cons a xs)
  obtain k v where a: "a = (k, v)" by (cases a)
  have k1: "k \<notin> fst ` set (fst st)" and k2: "k \<notin> fst ` set (snd st)"
    using Cons.prems a by auto
  have r: "record_leaf k v st = (fst st @ [(k, v)], snd st @ [(k, k)])"
    by (simp add: record_leaf_def build_nested_path_def update_absent [OF k1] update_absent [OF k2])
  have "record_all xs (record_leaf k v st)
          = (fst (record_leaf k v st) @ xs,
             snd (record_leaf k v st) @ map (\<lambda>kv. (fst kv, fst kv)) xs)"
    using Cons.prems a by (intro Cons.IH) (auto simp: r)
  then show ?case using a by (simp add: record_all_def r)
qed

lemma py_eq_refl: "py_eq j j"
proof (induction j)
  case (JArr xs)
  have "\<forall>xy\<in>set (zip xs xs). py_eq (fst xy) (snd xy)"
    using JArr by (auto simp: set_zip)
  then show ?case by (simp add: list_all_iff)
next
  case (JObj d)
  have "\<forall>k\<in>set (map fst d). case map_of d k of None \<Rightarrow> False
           | Some v \<Rightarrow> (case map_of d k of None \<Rightarrow> False | Some w \<Rightarrow> py_eq v w)"
  proof
    fix k assume "k \<in> set (map fst d)"
    then obtain v where v: "map_of d k = Some v"
      by (metis map_of_eq_None_iff not_None_eq set_map)
    then have "(k, v) \<in> set d" by (rule map_of_SomeD)
    then have "py_eq v v" using JObj by fastforce
    then show "case map_of d k of None \<Rightarrow> False
           | Some v \<Rightarrow> (case map_of d k of None \<Rightarrow> False | Some w \<Rightarrow> py_eq v w)"
      using v by simp
  qed
  then show ?case by (simp add: list_all_iff)
qed simp_all

lemma py_eq_dictI:
  assumes "set (map fst d) = set (map fst e)"
    and "\<And>k. k \<in> set (map fst d) \<Longrightarrow> \<exists>v w. map_of d k = Some v \<and> map_of e k = Some w \<and> py_eq v w"
  shows "py_eq (JObj d) (JObj e)"
proof -
  have "\<forall>k\<in>set (map fst d). case map_of d k of None \<Rightarrow> False
           | Some v \<Rightarrow> (case map_of e k of None \<Rightarrow> False | Some w \<Rightarrow> py_eq v w)"
  proof
    fix k assume "k \<in> set (map fst d)"
    from assms(2) [OF this] obtain v w where
      "map_of d k = Some v" "map_of e k = Some w" "py_eq v w" by blast
    then show "case map_of d k of None \<Rightarrow> False
           | Some v \<Rightarrow> (case map_of e k of None \<Rightarrow> False | Some w \<Rightarrow> py_eq v w)" by simp
  qed
  then have la: "list_all (\<lambda>k. case map_of d k of None \<Rightarrow> False
           | Some v \<Rightarrow> (case map_of e k of None \<Rightarrow> False | Some w \<Rightarrow> py_eq v w)) (map fst d)"
    unfolding list_all_iff .
  have "py_eq (JObj d) (JObj e)
          = (set (map fst d) = set (map fst e)
             \<and> list_all (\<lambda>k. case map_of d k of None \<Rightarrow> False
                  | Some v \<Rightarrow> (case map_of e k of None \<Rightarrow> False | Some w \<Rightarrow> py_eq v w))
                 (map fst d))"
    by (simp only: py_eq.simps json.case)
  then show ?thesis using assms(1) la by blast
qed

lemma canon_props_keys: "map fst (canon_props cs) = map fst cs"
  by (induction cs) auto

lemma shape_py_eq:
  "shape True t j \<Longrightarrow> py_eq (canon t) j"
  "shapes True cs qs \<Longrightarrow>
     map fst qs = map fst cs
     \<and> (\<forall>k v. map_of (canon_props cs) k = Some v \<longrightarrow> (\<exists>w. map_of qs k = Some w \<and> py_eq v w))"
proof (induction t and cs arbitrary: j and qs rule: canon_canon_props.induct)
  case (1 l)
  then show ?case by (simp add: py_eq_refl)
next
  case (2 cs)
  obtain qs where qs: "object_properties True j = Some qs" "shapes True cs qs"
    using "2.prems" by (auto split: option.splits)
  obtain pd where pd: "j = JObj pd" "is_object_node True pd" "map_of pd ''properties'' = Some (JObj qs)"
    using object_propertiesD [OF qs(1)] by blast
  have inner: "py_eq (JObj (canon_props cs)) (JObj qs)"
  proof (rule py_eq_dictI)
    show "set (map fst (canon_props cs)) = set (map fst qs)"
      using "2.IH" [OF qs(2)] by (simp add: canon_props_keys)
  next
    fix k assume "k \<in> set (map fst (canon_props cs))"
    then obtain v where "map_of (canon_props cs) k = Some v"
      by (metis map_of_eq_None_iff not_None_eq set_map)
    then show "\<exists>v w. map_of (canon_props cs) k = Some v \<and> map_of qs k = Some w \<and> py_eq v w"
      using "2.IH" [OF qs(2)] by blast
  qed
  have "py_eq (JObj [(''type'', JStr ''object''), (''properties'', JObj (canon_props cs))]) (JObj pd)"
  proof (rule py_eq_dictI)
    show "set (map fst [(''type'', JStr ''object''), (''properties'', JObj (canon_props cs))])
            = set (map fst pd)"
      using pd(2) by (simp add: is_object_node_def)
  next
    fix k
    assume "k \<in> set (map fst [(''type'', JStr ''object''), (''properties'', JObj (canon_props cs))])"
    then consider "k = ''type''" | "k = ''properties''" by auto
    then show "\<exists>v w. map_of [(''type'', JStr ''object''), (''properties'', JObj (canon_props cs))] k
                       = Some v \<and> map_of pd k = Some w \<and> py_eq v w"
    proof cases
      case 1
      then show ?thesis using pd(2) by (simp add: is_object_node_def)
    next
      case 2
      then show ?thesis using pd(3) inner by simp
    qed
  qed
  then show ?case using pd(1) by simp
next
  case (3 cs)
  obtain qs where qs: "array_item_properties True j = Some qs" "shapes True cs qs"
    using "3.prems" by (auto split: option.splits)
  obtain pd it where pd: "j = JObj pd" "is_array_node True pd" "map_of pd ''items'' = Some (JObj it)"
    "is_object_node True it" "map_of it ''properties'' = Some (JObj qs)"
    using array_item_propertiesD [OF qs(1)] by blast
  have inner: "py_eq (JObj (canon_props cs)) (JObj qs)"
  proof (rule py_eq_dictI)
    show "set (map fst (canon_props cs)) = set (map fst qs)"
      using "3.IH" [OF qs(2)] by (simp add: canon_props_keys)
  next
    fix k assume "k \<in> set (map fst (canon_props cs))"
    then obtain v where "map_of (canon_props cs) k = Some v"
      by (metis map_of_eq_None_iff not_None_eq set_map)
    then show "\<exists>v w. map_of (canon_props cs) k = Some v \<and> map_of qs k = Some w \<and> py_eq v w"
      using "3.IH" [OF qs(2)] by blast
  qed
  have item: "py_eq (JObj [(''type'', JStr ''object''), (''properties'', JObj (canon_props cs))])
                (JObj it)"
  proof (rule py_eq_dictI)
    show "set (map fst [(''type'', JStr ''object''), (''properties'', JObj (canon_props cs))])
            = set (map fst it)"
      using pd(4) by (simp add: is_object_node_def)
  next
    fix k
    assume "k \<in> set (map fst [(''type'', JStr ''object''), (''properties'', JObj (canon_props cs))])"
    then consider "k = ''type''" | "k = ''properties''" by auto
    then show "\<exists>v w. map_of [(''type'', JStr ''object''), (''properties'', JObj (canon_props cs))] k
                       = Some v \<and> map_of it k = Some w \<and> py_eq v w"
    proof cases
      case 1
      then show ?thesis using pd(4) by (simp add: is_object_node_def)
    next
      case 2
      then show ?thesis using pd(5) inner by simp
    qed
  qed
  have "py_eq (JObj [(''type'', JStr ''array''),
                     (''items'', JObj [(''type'', JStr ''object''),
                                       (''properties'', JObj (canon_props cs))])]) (JObj pd)"
  proof (rule py_eq_dictI)
    show "set (map fst [(''type'', JStr ''array''),
                     (''items'', JObj [(''type'', JStr ''object''),
                                       (''properties'', JObj (canon_props cs))])])
            = set (map fst pd)"
      using pd(2) by (simp add: is_array_node_def)
  next
    fix k
    assume "k \<in> set (map fst [(''type'', JStr ''array''),
                     (''items'', JObj [(''type'', JStr ''object''),
                                       (''properties'', JObj (canon_props cs))])])"
    then consider "k = ''type''" | "k = ''items''" by auto
    then show "\<exists>v w. map_of [(''type'', JStr ''array''),
                     (''items'', JObj [(''type'', JStr ''object''),
                                       (''properties'', JObj (canon_props cs))])] k
                       = Some v \<and> map_of pd k = Some w \<and> py_eq v w"
    proof cases
      case 1
      then show ?thesis using pd(2) by (simp add: is_array_node_def)
    next
      case 2
      then show ?thesis using pd(3) item by simp
    qed
  qed
  then show ?case using pd(1) by simp
next
  case 4
  then show ?case by simp
next
  case (5 k t cs)
  obtain j qs' where qs: "qs = (k, j) # qs'" "shape True t j" "shapes True cs qs'"
    using "5.prems" by (auto split: list.splits)
  show ?case using "5.IH"(1) [OF qs(2)] "5.IH"(2) [OF qs(3)] qs(1) by auto
qed

lemma map_of_filter_other:
  "k \<noteq> p \<Longrightarrow> map_of (filter (\<lambda>kv. fst kv \<noteq> p) D) k = map_of D k"
  by (induction D) auto

lemma keys_filter_insert:
  "p \<in> fst ` set D \<Longrightarrow> insert p (fst ` set (filter (\<lambda>kv. fst kv \<noteq> p) D)) = fst ` set D"
  by force

lemma shapes_py_eq: "shapes True cs qs \<Longrightarrow> py_eq (JObj (canon_props cs)) (JObj qs)"
proof (rule py_eq_dictI)
  assume s: "shapes True cs qs"
  show "set (map fst (canon_props cs)) = set (map fst qs)"
    using shape_py_eq(2) [OF s] by (simp add: canon_props_keys)
  fix k assume "k \<in> set (map fst (canon_props cs))"
  then obtain v where "map_of (canon_props cs) k = Some v"
    by (metis map_of_eq_None_iff not_None_eq set_map)
  then show "\<exists>v w. map_of (canon_props cs) k = Some v \<and> map_of qs k = Some w \<and> py_eq v w"
    using shape_py_eq(2) [OF s] by blast
qed

lemma shapes_nonempty: "shapes strict cs qs \<Longrightarrow> qs \<noteq> [] \<Longrightarrow> cs \<noteq> []"
  by (cases cs) auto

lemma rebuilt_py_eq:
  assumes D: "map_of D ''properties'' = Some (JObj qs)" and s: "shapes True cs qs"
  shows "py_eq (JObj (filter (\<lambda>kv. fst kv \<noteq> ''properties'') D
                       @ [(''properties'', JObj (canon_props cs))])) (JObj D)"
proof (rule py_eq_dictI)
  let ?M = "filter (\<lambda>kv. fst kv \<noteq> ''properties'') D"
  let ?R = "?M @ [(''properties'', JObj (canon_props cs))]"
  have pin: "''properties'' \<in> fst ` set D"
    using D by (metis map_of_eq_None_iff option.distinct(1))
  show "set (map fst ?R) = set (map fst D)"
    using keys_filter_insert [OF pin] by simp
  have nomem: "map_of ?M ''properties'' = None"
    by (simp add: map_of_eq_None_iff) force
  fix k assume "k \<in> set (map fst ?R)"
  then have "k = ''properties'' \<or> k \<in> fst ` set ?M" by auto
  then have kin: "k \<in> fst ` set D" using pin by auto
  show "\<exists>v w. map_of ?R k = Some v \<and> map_of D k = Some w \<and> py_eq v w"
  proof (cases "k = ''properties''")
    case True
    have "map_of ?R ''properties'' = Some (JObj (canon_props cs))"
      using nomem by (simp add: map_add_def)
    then show ?thesis using True D shapes_py_eq [OF s] by blast
  next
    case False
    obtain v where v: "map_of D k = Some v"
      using kin by (metis map_of_eq_None_iff not_None_eq)
    have "map_of ?R k = Some v"
      using False v by (simp add: map_add_def map_of_filter_other)
    then show ?thesis using v py_eq_refl by blast
  qed
qed

subsection \<open>Path grammar\<close>




subsection \<open>Round trip\<close>

text \<open>
  Claim C1, as amended. The round trip holds for every document on which nested detection is
  False, and for every document whose \<^verbatim>\<open>properties\<close> is a mapping that has the strict shape
  of a tree in which every leaf is a mapping that the walk records as it is (among them a
  \<^verbatim>\<open>$ref\<close> that is not expanded), every object and array of objects carries no key beyond
  the structural ones and holds at least one property, sibling names are distinct, no name
  contains a dot or \<^verbatim>\<open>[*]\<close>, every object at the top level has a non-empty name, and the
  nesting is less deep than the recursion limit: \<^verbatim>\<open>flatten_schema\<close> returns, \<^verbatim>\<open>unflatten_schema\<close> returns on its
  result, and the rebuilt document is equal to the original in Python's sense, with the same
  top-level keys, the same metadata and the same nested properties tree. The statement does
  not cover a property whose \<^verbatim>\<open>$ref\<close> the flattener expands.
\<close>

theorem round_trip:
  assumes "is_nested_schema D = Inr False
           \<or> (map_of D ''properties'' = Some (JObj qs) \<and> shapes True ps qs
               \<and> walkable_props (dict_get_or D ''definitions'' (JObj [])) ps
               \<and> top_objects_named ps \<and> wf_props ps \<and> props_depth ps < limit)"
  shows "\<exists>F idx R. flatten_schema limit D = Inr (F, idx) \<and> unflatten_schema F idx = Inr R
           \<and> py_eq (JObj R) (JObj D)"
proof -
  have flat: ?thesis if "flatten_schema limit D = Inr (D, [])"
  proof -
    have "unflatten_schema D [] = Inr D" by (simp add: unflatten_schema_def)
    then show ?thesis using that py_eq_refl by blast
  qed
  from assms show ?thesis
  proof
    assume "is_nested_schema D = Inr False"
    then have "flatten_schema limit D = Inr (D, [])" by (simp add: flatten_schema_def)
    then show ?thesis by (rule flat)
  next
    assume a: "map_of D ''properties'' = Some (JObj qs) \<and> shapes True ps qs
               \<and> walkable_props (dict_get_or D ''definitions'' (JObj [])) ps
               \<and> top_objects_named ps \<and> wf_props ps \<and> props_depth ps < limit"
    then have D: "map_of D ''properties'' = Some (JObj qs)" and sh: "shapes True ps qs"
      and wk: "walkable_props (dict_get_or D ''definitions'' (JObj [])) ps"
      and top: "top_objects_named ps" and wf: "wf_props ps" and dp: "props_depth ps < limit"
      by blast+
    show ?thesis
    proof (cases "has_nested_loop qs")
      case False
      then have "flatten_schema limit D = Inr (D, [])"
        using flatten_schema_tree [OF D sh wk top dp] by simp
      then show ?thesis by (rule flat)
    next
      case True
      define leaves where "leaves = props_leaves ps"
      define FL where "FL = rendered [] leaves"
      define MP where "MP = map (\<lambda>kv. (fst kv, fst kv)) FL"
      have "record_all (rendered [] (props_leaves ps)) ([], []) = (FL, MP)"
        using record_all_fresh [of "rendered [] (props_leaves ps)" "([], [])"]
          rendered_distinct [OF wf]
        by (simp add: FL_def MP_def leaves_def)
      then have fl: "flatten_schema limit D = Inr (AList.update ''properties'' (JObj FL) D, MP)"
        using flatten_schema_tree [OF D sh wk top dp] True by simp
      have "qs \<noteq> []" using True by (cases qs) auto
      then have "ps \<noteq> []" using shapes_nonempty [OF sh] by simp
      then have lne: "leaves \<noteq> []" using leaves_exist(2) [OF wf] by (simp add: leaves_def)
      then have mp: "MP \<noteq> []" by (simp add: MP_def FL_def rendered_def)
      have FL': "FL = map (\<lambda>pl. (render (fst pl), snd pl)) leaves"
        by (simp add: FL_def rendered_def)
      have good: "\<forall>pl\<in>set leaves. fst pl \<noteq> [] \<and> (\<forall>x\<in>set (fst pl). name_ok (part_name x))"
        using leaves_nonempty_paths(2) [of ps] leaves_good(2) [OF wf] by (auto simp: leaves_def)
      have "unflatten_loop FL (JObj []) = unflatten_paths leaves (JObj [])"
        unfolding FL' by (rule unflatten_loop_render [OF good])
      also have "\<dots> = Inr (JObj ([] @ canon_props ps))"
        unfolding leaves_def by (rule unflatten_tree(2) [OF wf]) simp
      finally have loop: "unflatten_loop FL (JObj []) = Inr (JObj (canon_props ps))" by simp
      let ?M = "filter (\<lambda>kv. fst kv \<noteq> ''properties'') D"
      have "''properties'' \<notin> fst ` set ?M" by auto
      then have upd: "AList.update ''properties'' (JObj (canon_props ps)) ?M
                        = ?M @ [(''properties'', JObj (canon_props ps))]"
        by (rule update_absent)
      have un: "unflatten_schema (AList.update ''properties'' (JObj FL) D) MP
                  = Inr (?M @ [(''properties'', JObj (canon_props ps))])"
        using mp loop upd
        by (simp add: unflatten_schema_def dict_get_or_def update_conv' filter_update_same)
      show ?thesis using fl un rebuilt_py_eq [OF D sh] by blast
    qed
  qed
qed

theorem round_trip_witness:
  "map_of complex_doc ''properties'' = Some (JObj complex_properties)
   \<and> shapes True complex_tree complex_properties
   \<and> walkable_props (dict_get_or complex_doc ''definitions'' (JObj [])) complex_tree
   \<and> top_objects_named complex_tree \<and> wf_props complex_tree \<and> props_depth complex_tree < 10
   \<and> (\<exists>F idx R. flatten_schema 10 complex_doc = Inr (F, idx)
          \<and> unflatten_schema F idx = Inr R \<and> py_eq (JObj R) (JObj complex_doc))"
proof -
  have D: "map_of complex_doc ''properties'' = Some (JObj complex_properties)"
    by (simp add: complex_doc_def)
  have sh: "shapes True complex_tree complex_properties" by code_simp
  have wk: "walkable_props (dict_get_or complex_doc ''definitions'' (JObj [])) complex_tree"
    by code_simp
  have wf: "wf_props complex_tree" by code_simp
  have top: "top_objects_named complex_tree" by code_simp
  have dp: "props_depth complex_tree < 10" by code_simp
  have "is_nested_schema complex_doc = Inr False
        \<or> (map_of complex_doc ''properties'' = Some (JObj complex_properties)
            \<and> shapes True complex_tree complex_properties
            \<and> walkable_props (dict_get_or complex_doc ''definitions'' (JObj [])) complex_tree
            \<and> top_objects_named complex_tree \<and> wf_props complex_tree
            \<and> props_depth complex_tree < 10)"
    using D sh wk top wf dp by blast
  from round_trip [OF this] D sh wk top wf dp show ?thesis by blast
qed

text \<open>
  The claim as stated fails for a resolvable \<^verbatim>\<open>$ref\<close> whose definition has properties: the
  flattener expands the definition under the referring property, and the unflattener, which
  only reads the flat paths, rebuilds an inline object where the \<^verbatim>\<open>$ref\<close> node was.
\<close>

theorem round_trip_ref_counterexample:
  "flatten_schema 10 ref_doc = Inr (ref_flat, [(''home.street'', ''home.street'')])
   \<and> unflatten_schema ref_flat [(''home.street'', ''home.street'')] = Inr ref_rebuilt
   \<and> \<not> py_eq (JObj ref_rebuilt) (JObj ref_doc)"
  by code_simp

end
